theory Spec2Isabelle
  imports Main
begin

section \<open>Python values\<close>

text \<open>
  A Python \<open>str\<close> is a sequence of Unicode code points, so it is a list of naturals here
  (\<open>len\<close> is \<open>length\<close>); the 8-bit \<open>char\<close> of HOL cannot hold the em-dash U+2014.
  ASCII literals of the source are written \<open>py ''...''\<close>.
\<close>

type_synonym pystr = "nat list"

abbreviation py :: "string \<Rightarrow> pystr" where
  "py s \<equiv> map of_char s"

text \<open>A float is a mantissa and a binary exponent, or one of the three special values.\<close>

datatype pyfloat = Finite int int | PosInf | NegInf | NaN

text \<open>What \<open>request.get_json()\<close> can return, and what \<open>jsonify\<close> is given.\<close>

datatype pyval =
    PNone
  | PBool bool
  | PInt int
  | PFloat pyfloat
  | PStr pystr
  | PList "pyval list"
  | PDict "(pystr \<times> pyval) list"

text \<open>Truth value testing, as \<open>not data\<close> and \<open>not ai_text\<close> use it.\<close>

fun truthy :: "pyval \<Rightarrow> bool" where
  "truthy PNone = False"
| "truthy (PBool b) = b"
| "truthy (PInt i) = (i \<noteq> 0)"
| "truthy (PFloat f) = (case f of Finite m e \<Rightarrow> m \<noteq> 0 | _ \<Rightarrow> True)"
| "truthy (PStr s) = (s \<noteq> [])"
| "truthy (PList xs) = (xs \<noteq> [])"
| "truthy (PDict kvs) = (kvs \<noteq> [])"

fun type_name :: "pyval \<Rightarrow> string" where
  "type_name PNone = ''NoneType''"
| "type_name (PBool b) = ''bool''"
| "type_name (PInt i) = ''int''"
| "type_name (PFloat f) = ''float''"
| "type_name (PStr s) = ''str''"
| "type_name (PList xs) = ''list''"
| "type_name (PDict kvs) = ''dict''"

text \<open>
  Exceptions, each with the text \<open>str(e)\<close> gives. \<open>Raised\<close> is an exception of a library
  call (the web framework, the provider's client), known only by that text.
\<close>

datatype exn =
    AttributeError pystr
  | IndexError pystr
  | KeyError pystr
  | ValueError pystr
  | UnicodeEncodeError pystr
  | StopIteration
  | Raised pystr

fun str_exc :: "exn \<Rightarrow> pystr" where
  "str_exc (AttributeError m) = m"
| "str_exc (IndexError m) = m"
| "str_exc (KeyError m) = m"
| "str_exc (ValueError m) = m"
| "str_exc (UnicodeEncodeError m) = m"
| "str_exc StopIteration = []"
| "str_exc (Raised m) = m"

definition no_attribute :: "pyval \<Rightarrow> string \<Rightarrow> exn" where
  "no_attribute v name =
     AttributeError (py ([CHR 0x27] @ type_name v @ [CHR 0x27] @ '' object has no attribute ''
                         @ [CHR 0x27] @ name @ [CHR 0x27]))"

subsection \<open>str.strip\<close>

text \<open>The code points for which \<open>str.isspace\<close> holds: the characters \<open>strip()\<close> removes.\<close>

definition py_isspace :: "nat \<Rightarrow> bool" where
  "py_isspace c =
     ((9 \<le> c \<and> c \<le> 13) \<or> (28 \<le> c \<and> c \<le> 32) \<or> c = 133 \<or> c = 160 \<or> c = 5760
      \<or> (8192 \<le> c \<and> c \<le> 8202) \<or> c = 8232 \<or> c = 8233 \<or> c = 8239 \<or> c = 8287
      \<or> c = 12288)"

definition strip :: "pystr \<Rightarrow> pystr" where
  "strip s = rev (dropWhile py_isspace (rev (dropWhile py_isspace s)))"

section \<open>The regular expressions of the post-processor\<close>

text \<open>
  The four patterns of \<open>humanize_text_with_deepseek\<close> use literal characters, a character
  class and \<open>\b\<close> only. A pattern is a list of such atoms; matching it at a position is
  deterministic. \<open>\w\<close> of a \<open>str\<close> pattern is \<open>[0-9A-Za-z_]\<close> on ASCII and the
  alphanumerics of the Unicode database beyond; that table is the parameter \<open>ua\<close>.
\<close>

datatype atom = Lit nat | Cls "nat list" | WordB

definition ascii_word :: "nat \<Rightarrow> bool" where
  "ascii_word c = ((48 \<le> c \<and> c \<le> 57) \<or> (65 \<le> c \<and> c \<le> 90) \<or> c = 95 \<or> (97 \<le> c \<and> c \<le> 122))"

definition is_word :: "(nat \<Rightarrow> bool) \<Rightarrow> nat \<Rightarrow> bool" where
  "is_word ua c = (if c < 128 then ascii_word c else ua c)"

text \<open>The character before or after a position; \<open>None\<close> at either end of the string.\<close>

fun word_at :: "(nat \<Rightarrow> bool) \<Rightarrow> nat option \<Rightarrow> bool" where
  "word_at ua None = False"
| "word_at ua (Some c) = is_word ua c"

fun first_char :: "pystr \<Rightarrow> nat option" where
  "first_char [] = None"
| "first_char (c # cs) = Some c"

definition word_boundary :: "(nat \<Rightarrow> bool) \<Rightarrow> nat option \<Rightarrow> pystr \<Rightarrow> bool" where
  "word_boundary ua prev s = (word_at ua prev \<noteq> word_at ua (first_char s))"

text \<open>
  \<open>match_here ua pat prev s\<close>: the pattern matched at the start of \<open>s\<close>, with \<open>prev\<close> the
  character before it; the result is the number of characters consumed.
\<close>

fun match_here :: "(nat \<Rightarrow> bool) \<Rightarrow> atom list \<Rightarrow> nat option \<Rightarrow> pystr \<Rightarrow> nat option" where
  "match_here ua [] prev s = Some 0"
| "match_here ua (WordB # ps) prev s =
     (if word_boundary ua prev s then match_here ua ps prev s else None)"
| "match_here ua (Lit a # ps) prev [] = None"
| "match_here ua (Lit a # ps) prev (c # cs) =
     (if c = a then map_option Suc (match_here ua ps (Some c) cs) else None)"
| "match_here ua (Cls as # ps) prev [] = None"
| "match_here ua (Cls as # ps) prev (c # cs) =
     (if c \<in> set as then map_option Suc (match_here ua ps (Some c) cs) else None)"

text \<open>
  \<open>re.sub(pat, repl, s)\<close>: scan from the left; where the pattern matches, emit the
  replacement and go on after the match; elsewhere copy one character. An empty match
  emits the replacement and copies the character after it.
\<close>

fun re_sub :: "(nat \<Rightarrow> bool) \<Rightarrow> atom list \<Rightarrow> pystr \<Rightarrow> nat option \<Rightarrow> pystr \<Rightarrow> pystr" where
  "re_sub ua pat repl prev [] = (if match_here ua pat prev [] = None then [] else repl)"
| "re_sub ua pat repl prev (c # cs) =
     (case match_here ua pat prev (c # cs) of
        None \<Rightarrow> c # re_sub ua pat repl (Some c) cs
      | Some 0 \<Rightarrow> repl @ c # re_sub ua pat repl (Some c) cs
      | Some (Suc n) \<Rightarrow> repl @ re_sub ua pat repl (Some ((c # cs) ! n)) (drop n cs))"

text \<open>\<open>re.search(pat, s) is not None\<close>: the pattern matches at some position.\<close>

fun re_search :: "(nat \<Rightarrow> bool) \<Rightarrow> atom list \<Rightarrow> nat option \<Rightarrow> pystr \<Rightarrow> bool" where
  "re_search ua pat prev [] = (match_here ua pat prev [] \<noteq> None)"
| "re_search ua pat prev (c # cs) =
     (match_here ua pat prev (c # cs) \<noteq> None \<or> re_search ua pat (Some c) cs)"

definition pat_dash :: "atom list" where
  "pat_dash = [Cls [8212, 8211]]"

definition pat_meanwhile :: "atom list" where
  "pat_meanwhile = WordB # Cls (py ''Mm'') # map Lit (py ''eanwhile'') @ [WordB]"

definition pat_flashpoint :: "atom list" where
  "pat_flashpoint = WordB # Cls (py ''Ff'') # map Lit (py ''lashpoint'') @ [WordB]"

definition pat_which :: "atom list" where
  "pat_which = map Lit (py ''which makes it'') @ [WordB]"

text \<open>Lines 149 to 152: the post-processing of the provider's text.\<close>

definition post_process :: "(nat \<Rightarrow> bool) \<Rightarrow> pystr \<Rightarrow> pystr" where
  "post_process ua humanized_text =
     (let t1 = re_sub ua pat_dash (py ''-'') None humanized_text;
          t2 = re_sub ua pat_meanwhile (py ''At the same time'') None t1;
          t3 = re_sub ua pat_flashpoint (py ''critical point'') None t2;
          t4 = re_sub ua pat_which (py (''so it'' @ [CHR 0x27] @ ''s'')) None t3
      in t4)"

section \<open>The environment of a request\<close>

text \<open>
  What the handler takes from the Python runtime and its libraries, the same for every
  request: \<open>hashlib.md5(s.encode()).hexdigest()\<close> as a function of \<open>s\<close>, the
  alphanumerics of the Unicode database beyond ASCII, and the text of the
  \<open>UnicodeEncodeError\<close> that \<open>s.encode()\<close> raises.
\<close>

record runtime =
  md5_hexdigest :: "pystr \<Rightarrow> pystr"
  unicode_alnum :: "nat \<Rightarrow> bool"
  encode_error :: "pystr \<Rightarrow> pystr"

text \<open>
  What one request finds outside the process: \<open>os.getenv('DEEPSEEK_API_KEY')\<close>; what
  \<open>client.chat.completions.create\<close> does when sent \<open>ai_text\<close> (it raises, or returns a
  response, of which the \<open>message.content\<close> of each of \<open>choices\<close> is kept); and the clock,
  as the value of \<open>round(time.time() - start_time, 2)\<close>.
\<close>

record env =
  getenv_key :: "pystr option"
  create :: "pystr \<Rightarrow> exn + pystr option list"
  elapsed :: pyfloat

text \<open>
  The state of the process: the global \<open>response_cache\<close>, a \<open>dict\<close>, kept as the list of
  its items in insertion order; and the number of calls of \<open>create\<close> made so far, which
  the source does not keep and a test of the provider's call count does.
\<close>

record world =
  response_cache :: "(pystr \<times> pystr) list"
  create_calls :: nat

definition initial_world :: world where
  "initial_world = \<lparr>response_cache = [], create_calls = 0\<rparr>"

subsection \<open>dict operations\<close>

definition dict_in :: "pystr \<Rightarrow> (pystr \<times> 'v) list \<Rightarrow> bool" where
  "dict_in k d = (k \<in> set (map fst d))"

definition dict_getitem :: "(pystr \<times> 'v) list \<Rightarrow> pystr \<Rightarrow> exn + 'v" where
  "dict_getitem d k = (case map_of d k of None \<Rightarrow> Inl (KeyError (39 # k @ [39])) | Some v \<Rightarrow> Inr v)"

text \<open>\<open>d[k] = v\<close>: a key already present keeps its place, a new key goes last.\<close>

definition dict_setitem :: "pystr \<Rightarrow> 'v \<Rightarrow> (pystr \<times> 'v) list \<Rightarrow> (pystr \<times> 'v) list" where
  "dict_setitem k v d =
     (if dict_in k d then map (\<lambda>(k', v'). if k' = k then (k', v) else (k', v')) d
      else d @ [(k, v)])"

text \<open>\<open>next(iter(d))\<close>: the key inserted first.\<close>

definition dict_first :: "(pystr \<times> 'v) list \<Rightarrow> exn + pystr" where
  "dict_first d = (case d of [] \<Rightarrow> Inl StopIteration | (k, v) # rest \<Rightarrow> Inr k)"

definition dict_delitem :: "pystr \<Rightarrow> (pystr \<times> 'v) list \<Rightarrow> exn + (pystr \<times> 'v) list" where
  "dict_delitem k d =
     (if dict_in k d then Inr (filter (\<lambda>(k', v'). k' \<noteq> k) d)
      else Inl (KeyError (39 # k @ [39])))"

section \<open>The rewrite client\<close>

definition get_deepseek_client :: "env \<Rightarrow> exn + pystr" where
  "get_deepseek_client e =
     (case getenv_key e of
        None \<Rightarrow> Inl (ValueError (py ''DEEPSEEK_API_KEY not set''))
      | Some api_key \<Rightarrow>
          if api_key = [] then Inl (ValueError (py ''DEEPSEEK_API_KEY not set''))
          else Inr api_key)"

text \<open>
  \<open>humanize_text_with_deepseek\<close>: the client, the call, \<open>choices[0].message.content.strip()\<close>,
  the post-processing. The \<open>except\<close> clause prints and raises the exception again. What
  \<open>print\<close> writes to the console is left out here and in the handler, and the constructor
  of the client is taken to return.
\<close>

definition humanize_text_with_deepseek ::
    "runtime \<Rightarrow> env \<Rightarrow> pystr \<Rightarrow> world \<Rightarrow> (exn + pystr) \<times> world" where
  "humanize_text_with_deepseek rt e ai_text w =
     (case get_deepseek_client e of
        Inl err \<Rightarrow> (Inl err, w)
      | Inr client \<Rightarrow>
          (let w' = w\<lparr>create_calls := Suc (create_calls w)\<rparr> in
           case create e ai_text of
             Inl err \<Rightarrow> (Inl err, w')
           | Inr choices \<Rightarrow>
               (case choices of
                  [] \<Rightarrow> (Inl (IndexError (py ''list index out of range'')), w')
                | content # others \<Rightarrow>
                    (case content of
                       None \<Rightarrow> (Inl (no_attribute PNone ''strip''), w')
                     | Some text \<Rightarrow>
                         (Inr (post_process (unicode_alnum rt) (strip text)), w')))))"

section \<open>The request handler\<close>

text \<open>\<open>data.get('text', '').strip()\<close>\<close>

fun py_get_text :: "pyval \<Rightarrow> exn + pyval" where
  "py_get_text (PDict kvs) =
     (case map_of kvs (py ''text'') of None \<Rightarrow> Inr (PStr []) | Some v \<Rightarrow> Inr v)"
| "py_get_text v = Inl (no_attribute v ''get'')"

fun py_strip :: "pyval \<Rightarrow> exn + pystr" where
  "py_strip (PStr s) = Inr (strip s)"
| "py_strip v = Inl (no_attribute v ''strip'')"

definition text_field :: "pyval \<Rightarrow> exn + pystr" where
  "text_field data = (case py_get_text data of Inl err \<Rightarrow> Inl err | Inr v \<Rightarrow> py_strip v)"

text \<open>\<open>ai_text.encode()\<close> raises on a lone surrogate, which a JSON escape can produce.\<close>

definition is_surrogate :: "nat \<Rightarrow> bool" where
  "is_surrogate c = (55296 \<le> c \<and> c \<le> 57343)"

definition encode :: "runtime \<Rightarrow> pystr \<Rightarrow> exn + pystr" where
  "encode rt s =
     (if list_ex is_surrogate s then Inl (UnicodeEncodeError (encode_error rt s)) else Inr s)"

text \<open>Lines 209 to 223: the cached text, or a new one, stored with the oldest entry evicted.\<close>

definition cached_or_new ::
    "runtime \<Rightarrow> env \<Rightarrow> pystr \<Rightarrow> pystr \<Rightarrow> world \<Rightarrow> (exn + pystr) \<times> world" where
  "cached_or_new rt e cache_key ai_text w =
     (if dict_in cache_key (response_cache w) then
        (case dict_getitem (response_cache w) cache_key of
           Inl err \<Rightarrow> (Inl err, w)
         | Inr humanized_text \<Rightarrow> (Inr humanized_text, w))
      else
        (case humanize_text_with_deepseek rt e ai_text w of
           (Inl err, w1) \<Rightarrow> (Inl err, w1)
         | (Inr humanized_text, w1) \<Rightarrow>
             (let c1 = dict_setitem cache_key humanized_text (response_cache w1);
                  w2 = w1\<lparr>response_cache := c1\<rparr>
              in if length c1 > 100 then
                   (case dict_first c1 of
                      Inl err \<Rightarrow> (Inl err, w2)
                    | Inr oldest_key \<Rightarrow>
                        (case dict_delitem oldest_key c1 of
                           Inl err \<Rightarrow> (Inl err, w2)
                         | Inr c2 \<Rightarrow> (Inr humanized_text, w1\<lparr>response_cache := c2\<rparr>)))
                 else (Inr humanized_text, w2))))"

text \<open>
  The body of the \<open>try\<close> of \<open>humanize\<close>. The request is what \<open>request.get_json()\<close> does:
  it raises, or returns the parsed body. A response is the value given to \<open>jsonify\<close>
  and the status.
\<close>

definition humanize_try ::
    "runtime \<Rightarrow> env \<Rightarrow> exn + pyval \<Rightarrow> world \<Rightarrow> (exn + pyval \<times> nat) \<times> world" where
  "humanize_try rt e get_json w =
     (case get_json of
        Inl err \<Rightarrow> (Inl err, w)
      | Inr data \<Rightarrow>
          if \<not> truthy data then
            (Inr (PDict [(py ''success'', PBool False),
                         (py ''error'', PStr (py ''No JSON data provided''))], 400), w)
          else
            (case text_field data of
               Inl err \<Rightarrow> (Inl err, w)
             | Inr ai_text \<Rightarrow>
                 if ai_text = [] then
                   (Inr (PDict [(py ''success'', PBool False),
                                (py ''error'', PStr (py ''No text provided''))], 400), w)
                 else if length ai_text > 10000 then
                   (Inr (PDict [(py ''success'', PBool False),
                                (py ''error'',
                                 PStr (py ''Text too long. Maximum 10,000 characters allowed.''))],
                         400), w)
                 else
                   (case encode rt ai_text of
                      Inl err \<Rightarrow> (Inl err, w)
                    | Inr encoded \<Rightarrow>
                        (let cache_key = md5_hexdigest rt encoded in
                         case cached_or_new rt e cache_key ai_text w of
                           (Inl err, w') \<Rightarrow> (Inl err, w')
                         | (Inr humanized_text, w') \<Rightarrow>
                             (Inr (PDict [(py ''success'', PBool True),
                                          (py ''humanized_text'', PStr humanized_text),
                                          (py ''processing_time'', PFloat (elapsed e)),
                                          (py ''original_length'', PInt (int (length ai_text))),
                                          (py ''humanized_length'',
                                           PInt (int (length humanized_text))),
                                          (py ''cached'',
                                           PBool (dict_in cache_key (response_cache w')))],
                                   200), w')))))"

text \<open>\<open>humanize\<close>: the \<open>try\<close>, and the \<open>except Exception\<close> that answers 500.\<close>

definition humanize :: "runtime \<Rightarrow> env \<Rightarrow> exn + pyval \<Rightarrow> world \<Rightarrow> (pyval \<times> nat) \<times> world" where
  "humanize rt e get_json w =
     (case humanize_try rt e get_json w of
        (Inr response, w') \<Rightarrow> (response, w')
      | (Inl err, w') \<Rightarrow>
          ((PDict [(py ''success'', PBool False),
                   (py ''error'', PStr (str_exc err)),
                   (py ''processing_time'', PFloat (elapsed e))], 500), w'))"

text \<open>A field of a JSON object.\<close>

fun field :: "pyval \<Rightarrow> string \<Rightarrow> pyval option" where
  "field (PDict kvs) name = map_of kvs (py name)"
| "field v name = None"

text \<open>Requests served one after the other, each in its own environment.\<close>

fun serve :: "runtime \<Rightarrow> (env \<times> (exn + pyval)) list \<Rightarrow> world \<Rightarrow> (pyval \<times> nat) list \<times> world" where
  "serve rt [] w = ([], w)"
| "serve rt ((e, get_json) # rest) w =
     (case humanize rt e get_json w of
        (response, w') \<Rightarrow> (case serve rt rest w' of (rs, w'') \<Rightarrow> (response # rs, w'')))"

text \<open>
  The text of a request that passes validation (lines 181 to 206), and its cache key.
\<close>

definition accepted_text :: "exn + pyval \<Rightarrow> pystr option" where
  "accepted_text get_json =
     (case get_json of
        Inl err \<Rightarrow> None
      | Inr data \<Rightarrow>
          if \<not> truthy data then None
          else (case text_field data of
                  Inl err \<Rightarrow> None
                | Inr ai_text \<Rightarrow>
                    if ai_text = [] \<or> length ai_text > 10000 \<or> list_ex is_surrogate ai_text then None
                    else Some ai_text))"

definition fingerprint :: "runtime \<Rightarrow> exn + pyval \<Rightarrow> pystr option" where
  "fingerprint rt get_json = map_option (md5_hexdigest rt) (accepted_text get_json)"

definition valid_text :: "pystr \<Rightarrow> bool" where
  "valid_text t = (t \<noteq> [] \<and> length t \<le> 10000 \<and> \<not> list_ex is_surrogate t)"

text \<open>The two bodies the handler builds after validation.\<close>

definition ok_body :: "env \<Rightarrow> pystr \<Rightarrow> pystr \<Rightarrow> bool \<Rightarrow> pyval" where
  "ok_body e ai_text humanized_text c =
     PDict [(py ''success'', PBool True),
            (py ''humanized_text'', PStr humanized_text),
            (py ''processing_time'', PFloat (elapsed e)),
            (py ''original_length'', PInt (int (length ai_text))),
            (py ''humanized_length'', PInt (int (length humanized_text))),
            (py ''cached'', PBool c)]"

definition err_body :: "env \<Rightarrow> exn \<Rightarrow> pyval" where
  "err_body e err =
     PDict [(py ''success'', PBool False),
            (py ''error'', PStr (str_exc err)),
            (py ''processing_time'', PFloat (elapsed e))]"

text \<open>Lines 220 to 223 on the items of the cache: the cleanup after an insertion.\<close>

definition evict :: "(pystr \<times> pystr) list \<Rightarrow> (pystr \<times> pystr) list" where
  "evict c = (if length c > 100 then filter (\<lambda>(k', v'). k' \<noteq> fst (hd c)) c else c)"

section \<open>Predicates of the specification\<close>

text \<open>The last character of \<open>prev\<close> followed by \<open>s\<close>: the character before what follows.\<close>

fun last_char :: "nat option \<Rightarrow> pystr \<Rightarrow> nat option" where
  "last_char prev [] = prev"
| "last_char prev (c # cs) = last_char (Some c) cs"

text \<open>
  \<open>standalone ua w s\<close>: the word \<open>w\<close> occurs in \<open>s\<close> with no word character before it and
  none after it. \<open>ends_word ua w s\<close>: \<open>w\<close> occurs in \<open>s\<close> with no word character after it.
  \<open>contains w s\<close>: \<open>w\<close> occurs in \<open>s\<close>.
\<close>

definition standalone :: "(nat \<Rightarrow> bool) \<Rightarrow> pystr \<Rightarrow> pystr \<Rightarrow> bool" where
  "standalone ua w s =
     (\<exists>pre post. s = pre @ w @ post \<and> \<not> word_at ua (last_char None pre)
        \<and> \<not> word_at ua (first_char post))"

definition ends_word :: "(nat \<Rightarrow> bool) \<Rightarrow> pystr \<Rightarrow> pystr \<Rightarrow> bool" where
  "ends_word ua w s = (\<exists>pre post. s = pre @ w @ post \<and> \<not> word_at ua (first_char post))"

definition contains :: "pystr \<Rightarrow> pystr \<Rightarrow> bool" where
  "contains w s = (\<exists>pre post. s = pre @ w @ post)"

text \<open>Letter case is ignored by comparing the lower-case forms (ASCII letters).\<close>

definition lower :: "nat \<Rightarrow> nat" where
  "lower c = (if 65 \<le> c \<and> c \<le> 90 then c + 32 else c)"

definition standalone_ci :: "(nat \<Rightarrow> bool) \<Rightarrow> pystr \<Rightarrow> pystr \<Rightarrow> bool" where
  "standalone_ci ua w s = standalone ua (map lower w) (map lower s)"

text \<open>
  A pattern of the form \<open>\b?(w1|w2|...)\b\<close> matches at the start of \<open>s\<close>: \<open>lead\<close> says
  whether it begins with \<open>\b\<close>.
\<close>

definition hits :: "(nat \<Rightarrow> bool) \<Rightarrow> bool \<Rightarrow> pystr list \<Rightarrow> nat option \<Rightarrow> pystr \<Rightarrow> bool" where
  "hits ua lead alts prev s =
     ((\<not> lead \<or> \<not> word_at ua prev)
      \<and> (\<exists>w \<in> set alts. \<exists>r. s = w @ r \<and> \<not> word_at ua (first_char r)))"

text \<open>
  \<open>avoids r0 r1 w\<close>: nowhere in \<open>w\<close> is \<open>r0\<close> followed by \<open>r1\<close>, and \<open>w\<close> does not end in
  \<open>r0\<close>; so no replacement text beginning \<open>r0 r1\<close> begins inside \<open>w\<close>.
\<close>

fun avoids :: "nat \<Rightarrow> nat \<Rightarrow> pystr \<Rightarrow> bool" where
  "avoids r0 r1 [] = True"
| "avoids r0 r1 [c] = (c \<noteq> r0)"
| "avoids r0 r1 (c # d # w) = ((c \<noteq> r0 \<or> d \<noteq> r1) \<and> avoids r0 r1 (d # w))"

section \<open>Environments for evaluation\<close>

text \<open>
  A runtime and two environments on which the handler can be run: the digest of a text is
  the text itself, no character beyond ASCII is alphanumeric; one provider echoes its
  input, the other raises an exception whose text is empty, as \<open>raise Exception()\<close> does.
\<close>

definition no_alnum :: "nat \<Rightarrow> bool" where
  "no_alnum c = False"

definition test_runtime :: runtime where
  "test_runtime = \<lparr>md5_hexdigest = id, unicode_alnum = no_alnum, encode_error = id\<rparr>"

definition echo_create :: "pystr \<Rightarrow> exn + pystr option list" where
  "echo_create ai_text = Inr [Some ai_text]"

definition failing_create :: "pystr \<Rightarrow> exn + pystr option list" where
  "failing_create ai_text = Inl (Raised [])"

definition echo_env :: env where
  "echo_env = \<lparr>getenv_key = Some (py ''sk-test''), create = echo_create, elapsed = Finite 0 0\<rparr>"

definition failing_env :: env where
  "failing_env = \<lparr>getenv_key = Some (py ''sk-test''), create = failing_create, elapsed = Finite 0 0\<rparr>"

text \<open>The request with the JSON body \<open>{"text": t}\<close>.\<close>

definition text_request :: "pystr \<Rightarrow> exn + pyval" where
  "text_request t = Inr (PDict [(py ''text'', PStr t)])"


text \<open>101 requests with the texts \<open>a0a\<close>, \<open>a1a\<close>, ... (the middle character is the code point).\<close>

definition many_requests :: "(env \<times> (exn + pyval)) list" where
  "many_requests = map (\<lambda>i. (echo_env, text_request [97, i, 97])) [0..<101]"

text \<open>The replacement texts of lines 150 to 152.\<close>

abbreviation repl_meanwhile :: pystr where
  "repl_meanwhile \<equiv> py ''At the same time''"

abbreviation repl_flashpoint :: pystr where
  "repl_flashpoint \<equiv> py ''critical point''"

abbreviation repl_which :: pystr where
  "repl_which \<equiv> py (''so it'' @ [CHR 0x27] @ ''s'')"

section \<open>Matching and substitution\<close>

lemma match_here_le: "match_here ua P prev s = Some n \<Longrightarrow> n \<le> length s"
  by (induction ua P prev s arbitrary: n rule: match_here.induct) (auto split: if_splits)

lemma last_char_append [simp]: "last_char prev (a @ b) = last_char (last_char prev a) b"
  by (induction a arbitrary: prev) auto

lemma last_char_nonempty: "w \<noteq> [] \<Longrightarrow> last_char prev w = Some (last w)"
  by (induction w arbitrary: prev) auto

lemma match_lits_wordb:
  "match_here ua (map Lit w @ [WordB]) prev s =
     (if \<exists>r. s = w @ r \<and> word_boundary ua (last_char prev w) r then Some (length w) else None)"
proof (induction w arbitrary: prev s)
  case Nil
  then show ?case by simp
next
  case (Cons a w)
  show ?case
  proof (cases s)
    case Nil
    then show ?thesis by simp
  next
    case (Cons c cs)
    then show ?thesis using Cons.IH [of "Some c" cs] by auto
  qed
qed

lemma match_lead_cls:
  "match_here ua (WordB # Cls as # map Lit w @ [WordB]) prev s =
     (if word_boundary ua prev s \<and> (\<exists>c r. c \<in> set as \<and> s = (c # w) @ r \<and> word_boundary ua (last_char prev (c # w)) r)
      then Some (Suc (length w)) else None)"
  by (cases s) (auto simp: match_lits_wordb)

lemma word_ascii [simp]:
  "c < 128 \<Longrightarrow> is_word ua c = ascii_word c"
  by (simp add: is_word_def)

lemma match_meanwhile:
  "match_here ua pat_meanwhile prev s =
     (if hits ua True [py ''Meanwhile'', py ''meanwhile''] prev s then Some 9 else None)"
  unfolding pat_meanwhile_def match_lead_cls
  by (cases s) (auto simp: hits_def word_boundary_def ascii_word_def)

lemma match_flashpoint:
  "match_here ua pat_flashpoint prev s =
     (if hits ua True [py ''Flashpoint'', py ''flashpoint''] prev s then Some 10 else None)"
  unfolding pat_flashpoint_def match_lead_cls
  by (cases s) (auto simp: hits_def word_boundary_def ascii_word_def)

lemma match_which:
  "match_here ua pat_which prev s =
     (if hits ua False [py ''which makes it''] prev s then Some 14 else None)"
  unfolding pat_which_def match_lits_wordb
  by (auto simp: hits_def word_boundary_def ascii_word_def)

lemma re_sub_Nil_iff:
  assumes ne: "\<And>prev s. match_here ua P prev s \<noteq> Some 0"
  shows "re_sub ua P (r0 # Rt) prev s = [] \<longleftrightarrow> s = []"
proof (cases s)
  case Nil
  have "match_here ua P prev [] = None"
  proof (cases "match_here ua P prev []")
    case (Some n)
    then have "n = 0" using match_here_le [of ua P prev "[]" n] by simp
    with Some ne show ?thesis by simp
  qed simp
  with Nil show ?thesis by simp
next
  case (Cons c cs)
  then show ?thesis by (simp split: option.splits nat.splits)
qed

lemma re_sub_Cons_out:
  assumes ne: "\<And>prev s. match_here ua P prev s \<noteq> Some 0"
    and out: "re_sub ua P (r0 # Rt) prev s = c # out"
  shows "(\<exists>cs. s = c # cs \<and> match_here ua P prev s = None \<and> out = re_sub ua P (r0 # Rt) (Some c) cs)
       \<or> (c = r0 \<and> (\<exists>n. match_here ua P prev s = Some (Suc n)
              \<and> out = Rt @ re_sub ua P (r0 # Rt) (Some (s ! n)) (drop (Suc n) s)))"
proof (cases s)
  case Nil
  with out re_sub_Nil_iff [OF ne, of r0 Rt prev s] show ?thesis by simp
next
  case (Cons d ds)
  show ?thesis
  proof (cases "match_here ua P prev (d # ds)")
    case None
    with out Cons show ?thesis by auto
  next
    case (Some k)
    with ne obtain n where k: "k = Suc n" by (cases k) auto
    with Some out Cons show ?thesis by auto
  qed
qed

lemma re_sub_prefix:
  assumes ne: "\<And>prev s. match_here ua P prev s \<noteq> Some 0"
  shows "re_sub ua P (r0 # r1 # Rt) prev s = w @ out \<Longrightarrow> w \<noteq> [] \<Longrightarrow> avoids r0 r1 w
     \<Longrightarrow> \<exists>rest. s = w @ rest \<and> out = re_sub ua P (r0 # r1 # Rt) (Some (last w)) rest"
proof (induction w arbitrary: prev s)
  case Nil
  then show ?case by simp
next
  case (Cons c w)
  from Cons.prems(1) have eq: "re_sub ua P (r0 # r1 # Rt) prev s = c # (w @ out)" by simp
  have copy: "\<exists>cs. s = c # cs \<and> w @ out = re_sub ua P (r0 # r1 # Rt) (Some c) cs"
  proof (cases w)
    case Nil
    with Cons.prems(3) have "c \<noteq> r0" by simp
    with re_sub_Cons_out [OF ne eq] show ?thesis by auto
  next
    case (Cons d w')
    with Cons.prems(3) have "c \<noteq> r0 \<or> d \<noteq> r1" by simp
    with re_sub_Cons_out [OF ne eq] Cons show ?thesis by auto
  qed
  then obtain cs where s: "s = c # cs" and r: "re_sub ua P (r0 # r1 # Rt) (Some c) cs = w @ out"
    by auto
  show ?case
  proof (cases w)
    case Nil
    with s r show ?thesis by simp
  next
    case (Cons d w')
    with Cons.prems(3) have "avoids r0 r1 w" by simp
    from Cons.IH [OF r _ this] Cons s show ?thesis by auto
  qed
qed

lemma re_sub_first_char:
  assumes ne: "\<And>prev s. match_here ua P prev s \<noteq> Some 0"
    and r0: "is_word ua r0"
    and nw: "\<not> word_at ua (first_char (re_sub ua P (r0 # Rt) prev s))"
  shows "\<not> word_at ua (first_char s)"
proof (cases "re_sub ua P (r0 # Rt) prev s")
  case Nil
  with re_sub_Nil_iff [OF ne, of r0 Rt prev s] show ?thesis by simp
next
  case (Cons c out)
  from re_sub_Cons_out [OF ne Cons] nw r0 Cons show ?thesis by auto
qed

lemma re_search_drop:
  "re_search ua Q (Some (s ! n)) (drop (Suc n) s) \<Longrightarrow> Suc n \<le> length s \<Longrightarrow> re_search ua Q p s"
proof (induction s arbitrary: n p)
  case Nil
  then show ?case by simp
next
  case (Cons c cs)
  show ?case
  proof (cases n)
    case 0
    with Cons.prems show ?thesis by simp
  next
    case (Suc m)
    with Cons.prems Cons.IH [of m "Some c"] show ?thesis by simp
  qed
qed

lemma hits_Nil: "(\<And>w. w \<in> set alts \<Longrightarrow> w \<noteq> []) \<Longrightarrow> \<not> hits ua lead alts prev []"
  by (auto simp: hits_def)

lemma re_sub_no_match:
  assumes ne: "\<And>prev s. match_here ua P prev s \<noteq> Some 0"
    and lastw: "\<And>prev s n. match_here ua P prev s = Some (Suc n) \<Longrightarrow> is_word ua (s ! n)"
    and R: "R = r0 # r1 # Rt" "is_word ua r0" "is_word ua (last R)"
    and Q: "\<And>prev s. match_here ua Q prev s = (if hits ua lead alts prev s then Some k else None)"
    and alts: "\<And>w. w \<in> set alts \<Longrightarrow> w \<noteq> [] \<and> avoids r0 r1 w"
    and inR: "\<And>q X. re_search ua Q q (R @ X) \<Longrightarrow> re_search ua Q (Some (last R)) X"
    and step: "\<And>p c cs. G p (c # cs) \<Longrightarrow> match_here ua P p (c # cs) = None
                 \<Longrightarrow> \<not> hits ua lead alts p (c # cs) \<and> G (Some c) cs"
    and skip: "\<And>p s n. G p s \<Longrightarrow> match_here ua P p s = Some (Suc n)
                 \<Longrightarrow> G (Some (s ! n)) (drop (Suc n) s)"
  shows "G p s \<Longrightarrow> word_at ua q = word_at ua p \<Longrightarrow> \<not> re_search ua Q q (re_sub ua P R p s)"
proof (induction s arbitrary: p q rule: length_induct)
  case (1 s)
  show ?case
  proof (cases s)
    case Nil
    have "re_sub ua P (r0 # r1 # Rt) p [] = []" using re_sub_Nil_iff [OF ne] by blast
    then show ?thesis using hits_Nil [of alts ua lead q] alts Nil R(1) by (simp add: Q)
  next
    case (Cons c cs)
    show ?thesis
    proof (cases "match_here ua P p (c # cs)")
      case None
      from step [OF _ None] "1.prems"(1) Cons
      have nh: "\<not> hits ua lead alts p (c # cs)" and G': "G (Some c) cs"
        by auto
      have rec: "\<not> re_search ua Q (Some c) (re_sub ua P R (Some c) cs)"
        using "1.IH" G' Cons by simp
      have "\<not> hits ua lead alts q (c # re_sub ua P R (Some c) cs)"
      proof
        assume h: "hits ua lead alts q (c # re_sub ua P R (Some c) cs)"
        then obtain w r where w: "w \<in> set alts" and eq: "c # re_sub ua P R (Some c) cs = w @ r"
          and nb: "\<not> word_at ua (first_char r)" and ld: "\<not> lead \<or> \<not> word_at ua q"
          by (auto simp: hits_def)
        from None eq have "re_sub ua P (r0 # r1 # Rt) p (c # cs) = w @ r" using R(1) by simp
        from re_sub_prefix [OF ne this] alts [OF w]
        obtain rest where s: "c # cs = w @ rest"
          and r: "r = re_sub ua P (r0 # r1 # Rt) (Some (last w)) rest"
          by auto
        from nb r have "\<not> word_at ua (first_char rest)"
          using re_sub_first_char [OF ne R(2), of "r1 # Rt" "Some (last w)" rest] by simp
        with w s ld "1.prems"(2) have "hits ua lead alts p (c # cs)" by (auto simp: hits_def)
        with nh show False by simp
      qed
      with rec None Cons show ?thesis by (simp add: Q)
    next
      case (Some m)
      with ne obtain n where m: "m = Suc n" by (cases m) auto
      from Some m have M: "match_here ua P p (c # cs) = Some (Suc n)" by simp
      from skip [OF _ M] "1.prems"(1) Cons
      have G': "G (Some ((c # cs) ! n)) (drop n cs)" by simp
      have wa: "word_at ua (Some (last R)) = word_at ua (Some ((c # cs) ! n))"
        using lastw [OF M] R(3) by simp
      have rec: "\<not> re_search ua Q (Some (last R)) (re_sub ua P R (Some ((c # cs) ! n)) (drop n cs))"
        using "1.IH" G' wa Cons by simp
      have "re_sub ua P R p (c # cs) = R @ re_sub ua P R (Some ((c # cs) ! n)) (drop n cs)"
        using M by simp
      with rec inR Cons show ?thesis by auto
    qed
  qed
qed

lemma hits_last_word:
  assumes "hits ua lead alts prev s"
    and "\<And>w. w \<in> set alts \<Longrightarrow> length w = Suc n \<and> is_word ua (last w)"
  shows "is_word ua (s ! n)"
proof -
  from assms(1) obtain w r where w: "w \<in> set alts" and s: "s = w @ r" by (auto simp: hits_def)
  from assms(2) [OF w] have l: "length w = Suc n" and lw: "is_word ua (last w)" by auto
  from l have "w \<noteq> []" by auto
  then have "last w = w ! n" using l by (simp add: last_conv_nth)
  with s l lw show ?thesis by (simp add: nth_append)
qed

lemma meanwhile_last: "match_here ua pat_meanwhile prev s = Some (Suc n) \<Longrightarrow> is_word ua (s ! n)"
proof -
  assume m: "match_here ua pat_meanwhile prev s = Some (Suc n)"
  then have h: "hits ua True [py ''Meanwhile'', py ''meanwhile''] prev s" and n: "n = 8"
    by (auto simp: match_meanwhile split: if_splits)
  show ?thesis unfolding n
    by (rule hits_last_word [OF h]) (auto simp: ascii_word_def)
qed

lemma flashpoint_last: "match_here ua pat_flashpoint prev s = Some (Suc n) \<Longrightarrow> is_word ua (s ! n)"
proof -
  assume m: "match_here ua pat_flashpoint prev s = Some (Suc n)"
  then have h: "hits ua True [py ''Flashpoint'', py ''flashpoint''] prev s" and n: "n = 9"
    by (auto simp: match_flashpoint split: if_splits)
  show ?thesis unfolding n
    by (rule hits_last_word [OF h]) (auto simp: ascii_word_def)
qed

lemma which_last: "match_here ua pat_which prev s = Some (Suc n) \<Longrightarrow> is_word ua (s ! n)"
proof -
  assume m: "match_here ua pat_which prev s = Some (Suc n)"
  then have h: "hits ua False [py ''which makes it''] prev s" and n: "n = 13"
    by (auto simp: match_which split: if_splits)
  show ?thesis unfolding n
    by (rule hits_last_word [OF h]) (auto simp: ascii_word_def)
qed

lemma meanwhile_in_AT: "re_search ua pat_meanwhile q (repl_meanwhile @ X) \<Longrightarrow> re_search ua pat_meanwhile (Some (last repl_meanwhile)) X"
  by (simp add: match_meanwhile hits_def ascii_word_def)

lemma meanwhile_established:
  "word_at ua q = word_at ua p \<Longrightarrow> \<not> re_search ua pat_meanwhile q (re_sub ua pat_meanwhile repl_meanwhile p s)"
proof (rule re_sub_no_match [where G = "\<lambda>_ _. True" and lead = True
      and alts = "[py ''Meanwhile'', py ''meanwhile'']" and k = 9 and ?r0.0 = 65 and ?r1.0 = 116
      and Rt = "py '' the same time''"])
  show "match_here ua pat_meanwhile prev s \<noteq> Some 0" for prev s by (simp add: match_meanwhile)
  show "match_here ua pat_meanwhile prev s = Some (Suc n) \<Longrightarrow> is_word ua (s ! n)" for prev s n
    by (rule meanwhile_last)
  show "re_search ua pat_meanwhile q (repl_meanwhile @ X) \<Longrightarrow> re_search ua pat_meanwhile (Some (last repl_meanwhile)) X" for q X
    by (rule meanwhile_in_AT)
  show "w \<in> set [py ''Meanwhile'', py ''meanwhile''] \<Longrightarrow> w \<noteq> [] \<and> avoids 65 116 w" for w
    by auto
qed (simp_all add: match_meanwhile ascii_word_def split: if_splits)

lemma re_sub_keeps_no_match:
  assumes ne: "\<And>prev s. match_here ua P prev s \<noteq> Some 0"
    and lastw: "\<And>prev s n. match_here ua P prev s = Some (Suc n) \<Longrightarrow> is_word ua (s ! n)"
    and R: "R = r0 # r1 # Rt" "is_word ua r0" "is_word ua (last R)"
    and Q: "\<And>prev s. match_here ua Q prev s = (if hits ua lead alts prev s then Some k else None)"
    and alts: "\<And>w. w \<in> set alts \<Longrightarrow> w \<noteq> [] \<and> avoids r0 r1 w"
    and inR: "\<And>q X. re_search ua Q q (R @ X) \<Longrightarrow> re_search ua Q (Some (last R)) X"
    and clean: "\<not> re_search ua Q p s"
    and wa: "word_at ua q = word_at ua p"
  shows "\<not> re_search ua Q q (re_sub ua P R p s)"
proof (rule re_sub_no_match [where G = "\<lambda>p s. \<not> re_search ua Q p s", OF ne lastw R Q alts inR _ _ clean wa])
  show "\<not> re_search ua Q p (c # cs) \<Longrightarrow> match_here ua P p (c # cs) = None
     \<Longrightarrow> \<not> hits ua lead alts p (c # cs) \<and> \<not> re_search ua Q (Some c) cs" for p c cs
    by (simp add: Q split: if_splits)
  show "\<not> re_search ua Q p s \<Longrightarrow> match_here ua P p s = Some (Suc n)
     \<Longrightarrow> \<not> re_search ua Q (Some (s ! n)) (drop (Suc n) s)" for p s n
    using re_search_drop [of ua Q s n p] match_here_le [of ua P p s "Suc n"] by blast
qed

lemma flashpoint_established:
  "word_at ua q = word_at ua p \<Longrightarrow> \<not> re_search ua pat_flashpoint q (re_sub ua pat_flashpoint repl_flashpoint p s)"
proof (rule re_sub_no_match [where G = "\<lambda>_ _. True" and lead = True
      and alts = "[py ''Flashpoint'', py ''flashpoint'']" and k = 10 and ?r0.0 = 99 and ?r1.0 = 114
      and Rt = "py ''itical point''"])
  show "match_here ua pat_flashpoint prev s \<noteq> Some 0" for prev s by (simp add: match_flashpoint)
  show "match_here ua pat_flashpoint prev s = Some (Suc n) \<Longrightarrow> is_word ua (s ! n)" for prev s n
    by (rule flashpoint_last)
  show "re_search ua pat_flashpoint q (repl_flashpoint @ X) \<Longrightarrow> re_search ua pat_flashpoint (Some (last repl_flashpoint)) X" for q X
    by (simp add: match_flashpoint hits_def ascii_word_def)
  show "w \<in> set [py ''Flashpoint'', py ''flashpoint''] \<Longrightarrow> w \<noteq> [] \<and> avoids 99 114 w" for w
    by auto
qed (simp_all add: match_flashpoint ascii_word_def split: if_splits)

lemma which_established:
  "word_at ua q = word_at ua p \<Longrightarrow> \<not> re_search ua pat_which q (re_sub ua pat_which repl_which p s)"
proof (rule re_sub_no_match [where G = "\<lambda>_ _. True" and lead = False
      and alts = "[py ''which makes it'']" and k = 14 and ?r0.0 = 115 and ?r1.0 = 111
      and Rt = "[32, 105, 116, 39, 115]"])
  show "match_here ua pat_which prev s \<noteq> Some 0" for prev s by (simp add: match_which)
  show "match_here ua pat_which prev s = Some (Suc n) \<Longrightarrow> is_word ua (s ! n)" for prev s n
    by (rule which_last)
  show "re_search ua pat_which q (repl_which @ X) \<Longrightarrow> re_search ua pat_which (Some (last repl_which)) X" for q X
    by (simp add: match_which hits_def ascii_word_def)
  show "w \<in> set [py ''which makes it''] \<Longrightarrow> w \<noteq> [] \<and> avoids 115 111 w" for w
    by auto
qed (simp_all add: match_which ascii_word_def split: if_splits)

lemma meanwhile_kept_flashpoint:
  "\<not> re_search ua pat_meanwhile p s \<Longrightarrow> word_at ua q = word_at ua p
     \<Longrightarrow> \<not> re_search ua pat_meanwhile q (re_sub ua pat_flashpoint repl_flashpoint p s)"
proof (rule re_sub_keeps_no_match [where lead = True
      and alts = "[py ''Meanwhile'', py ''meanwhile'']" and k = 9 and ?r0.0 = 99 and ?r1.0 = 114
      and Rt = "py ''itical point''"])
  show "match_here ua pat_flashpoint prev s \<noteq> Some 0" for prev s by (simp add: match_flashpoint)
  show "match_here ua pat_flashpoint prev s = Some (Suc n) \<Longrightarrow> is_word ua (s ! n)" for prev s n
    by (rule flashpoint_last)
  show "re_search ua pat_meanwhile q (repl_flashpoint @ X) \<Longrightarrow> re_search ua pat_meanwhile (Some (last repl_flashpoint)) X" for q X
    by (simp add: match_meanwhile hits_def ascii_word_def)
  show "w \<in> set [py ''Meanwhile'', py ''meanwhile''] \<Longrightarrow> w \<noteq> [] \<and> avoids 99 114 w" for w
    by auto
qed (simp_all add: match_meanwhile ascii_word_def split: if_splits)

lemma meanwhile_kept_which:
  "\<not> re_search ua pat_meanwhile p s \<Longrightarrow> word_at ua q = word_at ua p
     \<Longrightarrow> \<not> re_search ua pat_meanwhile q (re_sub ua pat_which repl_which p s)"
proof (rule re_sub_keeps_no_match [where lead = True
      and alts = "[py ''Meanwhile'', py ''meanwhile'']" and k = 9 and ?r0.0 = 115 and ?r1.0 = 111
      and Rt = "[32, 105, 116, 39, 115]"])
  show "match_here ua pat_which prev s \<noteq> Some 0" for prev s by (simp add: match_which)
  show "match_here ua pat_which prev s = Some (Suc n) \<Longrightarrow> is_word ua (s ! n)" for prev s n
    by (rule which_last)
  show "re_search ua pat_meanwhile q (repl_which @ X) \<Longrightarrow> re_search ua pat_meanwhile (Some (last repl_which)) X" for q X
    by (simp add: match_meanwhile hits_def ascii_word_def)
  show "w \<in> set [py ''Meanwhile'', py ''meanwhile''] \<Longrightarrow> w \<noteq> [] \<and> avoids 115 111 w" for w
    by auto
qed (simp_all add: match_meanwhile ascii_word_def split: if_splits)

lemma flashpoint_kept_which:
  "\<not> re_search ua pat_flashpoint p s \<Longrightarrow> word_at ua q = word_at ua p
     \<Longrightarrow> \<not> re_search ua pat_flashpoint q (re_sub ua pat_which repl_which p s)"
proof (rule re_sub_keeps_no_match [where lead = True
      and alts = "[py ''Flashpoint'', py ''flashpoint'']" and k = 10 and ?r0.0 = 115 and ?r1.0 = 111
      and Rt = "[32, 105, 116, 39, 115]"])
  show "match_here ua pat_which prev s \<noteq> Some 0" for prev s by (simp add: match_which)
  show "match_here ua pat_which prev s = Some (Suc n) \<Longrightarrow> is_word ua (s ! n)" for prev s n
    by (rule which_last)
  show "re_search ua pat_flashpoint q (repl_which @ X) \<Longrightarrow> re_search ua pat_flashpoint (Some (last repl_which)) X" for q X
    by (simp add: match_flashpoint hits_def ascii_word_def)
  show "w \<in> set [py ''Flashpoint'', py ''flashpoint''] \<Longrightarrow> w \<noteq> [] \<and> avoids 115 111 w" for w
    by auto
qed (simp_all add: match_flashpoint ascii_word_def split: if_splits)

lemma re_search_at:
  "match_here ua Q (last_char prev pre) s \<noteq> None \<Longrightarrow> re_search ua Q prev (pre @ s)"
proof (induction pre arbitrary: prev)
  case Nil
  then show ?case by (cases s) auto
next
  case (Cons c pre)
  then show ?case by simp
qed

lemma set_re_sub: "set (re_sub ua P R p s) \<subseteq> set R \<union> set s"
proof (induction s arbitrary: p rule: length_induct)
  case (1 s)
  show ?case
  proof (cases s)
    case Nil
    then show ?thesis by simp
  next
    case (Cons c cs)
    have a: "set (re_sub ua P R (Some c) cs) \<subseteq> set R \<union> set cs" using 1 Cons by simp
    have b: "set (re_sub ua P R q (drop n cs)) \<subseteq> set R \<union> set cs" for q n
    proof -
      have "set (re_sub ua P R q (drop n cs)) \<subseteq> set R \<union> set (drop n cs)" using 1 Cons by simp
      then show ?thesis using set_drop_subset [of n cs] by blast
    qed
    show ?thesis using Cons a b
      by (auto split: option.splits nat.splits)
  qed
qed

lemma dash_removed: "c \<in> set (re_sub ua pat_dash (py ''-'') p s) \<Longrightarrow> c \<noteq> 8212 \<and> c \<noteq> 8211"
  by (induction s arbitrary: p) (auto simp: pat_dash_def split: if_splits)

section \<open>The handler\<close>

subsection \<open>strip\<close>

lemma strip_all_space: "list_all py_isspace s \<Longrightarrow> strip s = []"
proof -
  assume "list_all py_isspace s"
  then have h: "dropWhile py_isspace s = []" by (simp add: list_all_iff dropWhile_eq_Nil_conv)
  show ?thesis unfolding strip_def h by simp
qed

lemma strip_padded:
  assumes "list_all py_isspace a" "list_all py_isspace b"
  shows "strip (a @ core @ b) = strip core"
proof -
  have a: "dropWhile py_isspace (a @ core @ b) = dropWhile py_isspace (core @ b)"
    by (rule dropWhile_append2) (use assms(1) in \<open>simp add: list_all_iff\<close>)
  have b: "dropWhile py_isspace (rev b @ xs) = dropWhile py_isspace xs" for xs
    by (rule dropWhile_append2) (use assms(2) in \<open>simp add: list_all_iff\<close>)
  show ?thesis
  proof (cases "dropWhile py_isspace core = []")
    case True
    then have all: "list_all py_isspace core" by (simp add: list_all_iff dropWhile_eq_Nil_conv)
    then have "list_all py_isspace (core @ b)" using assms(2) by simp
    then have "strip (core @ b) = []" by (rule strip_all_space)
    moreover have "strip (a @ core @ b) = strip (core @ b)" by (simp add: strip_def a)
    ultimately show ?thesis using strip_all_space [OF all] by simp
  next
    case False
    then have "dropWhile py_isspace (core @ b) = dropWhile py_isspace core @ b"
      by (auto simp: dropWhile_append)
    then show ?thesis by (simp add: strip_def a b)
  qed
qed

lemma strip_clean:
  assumes "s \<noteq> []" "\<not> py_isspace (hd s)" "\<not> py_isspace (last s)"
  shows "strip s = s"
proof -
  from assms(1,2) have a: "dropWhile py_isspace s = s" by (cases s) auto
  from assms(1,3) have "dropWhile py_isspace (rev s) = rev s"
    by (cases "rev s") (auto simp: hd_rev [symmetric])
  with a show ?thesis by (simp add: strip_def)
qed

subsection \<open>dict\<close>

lemma dict_in_map_of: "dict_in k d \<longleftrightarrow> map_of d k \<noteq> None"
  by (simp add: dict_in_def map_of_eq_None_iff)

lemma map_of_del: "map_of (filter (\<lambda>(k', v'). k' \<noteq> k0) d) k = (if k = k0 then None else map_of d k)"
  by (induction d) auto

lemma length_del: "dict_in k d \<Longrightarrow> length (filter (\<lambda>(k', v'). k' \<noteq> k) d) < length d"
proof -
  assume "dict_in k d"
  then obtain v where "(k, v) \<in> set d" by (auto simp: dict_in_def)
  then show ?thesis by (rule length_filter_less) simp
qed

subsection \<open>the handler on a text that passes validation\<close>

lemma humanize_valid:
  assumes "truthy data" "text_field data = Inr t" "valid_text t"
  shows "humanize rt e (Inr data) w =
     (case cached_or_new rt e (md5_hexdigest rt t) t w of
        (Inl err, w') \<Rightarrow> ((err_body e err, 500), w')
      | (Inr h, w') \<Rightarrow> ((ok_body e t h (dict_in (md5_hexdigest rt t) (response_cache w')), 200), w'))"
  using assms
  by (simp add: humanize_def humanize_try_def encode_def valid_text_def ok_body_def err_body_def
      split: prod.splits sum.splits)

lemma client_cache:
  "humanize_text_with_deepseek rt e t w = (r, w1) \<Longrightarrow> response_cache w1 = response_cache w"
  by (auto simp: humanize_text_with_deepseek_def Let_def split: sum.splits list.splits option.splits)

lemma cached_or_new_hit:
  assumes "map_of (response_cache w) k = Some h"
  shows "cached_or_new rt e k t w = (Inr h, w)"
  using assms by (simp add: cached_or_new_def dict_in_map_of dict_getitem_def)

lemma store_evict:
  "(let c1 = c; w2 = w1\<lparr>response_cache := c1\<rparr>
    in if length c1 > 100 then
         (case dict_first c1 of
            Inl err \<Rightarrow> (Inl err, w2)
          | Inr oldest_key \<Rightarrow>
              (case dict_delitem oldest_key c1 of
                 Inl err \<Rightarrow> (Inl err, w2)
               | Inr c2 \<Rightarrow> (Inr h, w1\<lparr>response_cache := c2\<rparr>)))
       else (Inr h, w2)) = (Inr h, w1\<lparr>response_cache := evict c\<rparr>)"
proof (cases c)
  case Nil
  then show ?thesis by (simp add: evict_def)
next
  case (Cons kv rest)
  obtain k0 v0 where kv: "kv = (k0, v0)" by (cases kv)
  have "dict_in k0 c" using Cons kv by (simp add: dict_in_def)
  with Cons kv show ?thesis
    by (simp add: evict_def dict_first_def dict_delitem_def Let_def)
qed

lemma cached_or_new_miss:
  assumes "map_of (response_cache w) k = None"
  shows "cached_or_new rt e k t w =
     (case humanize_text_with_deepseek rt e t w of
        (Inl err, w1) \<Rightarrow> (Inl err, w1)
      | (Inr h, w1) \<Rightarrow> (Inr h, w1\<lparr>response_cache := evict (response_cache w @ [(k, h)])\<rparr>))"
proof -
  have nin: "\<not> dict_in k (response_cache w)" using assms by (simp add: dict_in_map_of)
  show ?thesis
  proof (cases "humanize_text_with_deepseek rt e t w")
    case (Pair r w1)
    have c: "response_cache w1 = response_cache w" using client_cache [OF Pair] .
    show ?thesis
    proof (cases r)
      case (Inl err)
      with Pair nin show ?thesis by (simp add: cached_or_new_def)
    next
      case (Inr h)
      have "cached_or_new rt e k t w =
          (let c1 = response_cache w @ [(k, h)]; w2 = w1\<lparr>response_cache := c1\<rparr>
           in if length c1 > 100 then
             (case dict_first c1 of
                Inl err \<Rightarrow> (Inl err, w2)
              | Inr oldest_key \<Rightarrow>
                  (case dict_delitem oldest_key c1 of
                     Inl err \<Rightarrow> (Inl err, w2)
                   | Inr c2 \<Rightarrow> (Inr h, w1\<lparr>response_cache := c2\<rparr>)))
           else (Inr h, w2))"
        using Pair Inr nin c by (simp add: cached_or_new_def dict_setitem_def)
      also have "\<dots> = (Inr h, w1\<lparr>response_cache := evict (response_cache w @ [(k, h)])\<rparr>)"
        by (rule store_evict)
      finally show ?thesis using Pair Inr by simp
    qed
  qed
qed

lemma map_of_evict_new:
  assumes "map_of c k = None"
  shows "map_of (evict (c @ [(k, h)])) k = Some h"
proof (cases "length (c @ [(k, h)]) > 100")
  case False
  with assms show ?thesis by (simp add: evict_def map_add_def)
next
  case True
  then obtain kv rest where c: "c = kv # rest" by (cases c) auto
  obtain k0 v0 where kv: "kv = (k0, v0)" by (cases kv)
  have "k0 \<noteq> k" using assms c kv by (auto split: if_splits)
  then show ?thesis using True assms c kv
    by (simp add: evict_def map_of_del map_add_def split: if_splits)
qed

lemma length_evict: "length c \<le> 101 \<Longrightarrow> length (evict c) \<le> 100"
proof (cases "length c > 100")
  case False
  then show ?thesis by (simp add: evict_def)
next
  case True
  assume le: "length c \<le> 101"
  from True obtain kv rest where c: "c = kv # rest" by (cases c) auto
  obtain k0 v0 where kv: "kv = (k0, v0)" by (cases kv)
  have "dict_in k0 c" using c kv by (simp add: dict_in_def)
  from length_del [OF this] le True c kv show ?thesis by (simp add: evict_def)
qed

lemma cached_or_new_ok:
  assumes "cached_or_new rt e k t w = (Inr h, w')"
  shows "map_of (response_cache w') k = Some h"
proof (cases "map_of (response_cache w) k")
  case (Some h')
  from cached_or_new_hit [OF Some] assms show ?thesis using Some by simp
next
  case None
  from assms show ?thesis
    unfolding cached_or_new_miss [OF None]
    by (auto split: prod.splits sum.splits simp: map_of_evict_new [OF None])
qed

lemma cached_or_new_failed:
  assumes "cached_or_new rt e k t w = (Inl err, w')"
  shows "map_of (response_cache w) k = None \<and> humanize_text_with_deepseek rt e t w = (Inl err, w')"
proof (cases "map_of (response_cache w) k")
  case (Some h')
  from cached_or_new_hit [OF Some] assms show ?thesis by simp
next
  case None
  from assms show ?thesis
    unfolding cached_or_new_miss [OF None]
    by (auto split: prod.splits sum.splits simp: None)
qed

lemma cached_or_new_length:
  assumes "length (response_cache w) \<le> 100" "cached_or_new rt e k t w = (r, w')"
  shows "length (response_cache w') \<le> 100"
proof (cases "map_of (response_cache w) k")
  case (Some h')
  from cached_or_new_hit [OF Some] assms show ?thesis by simp
next
  case None
  have "length (evict (response_cache w @ [(k, h)])) \<le> 100" for h
    by (rule length_evict) (use assms(1) in simp)
  with assms show ?thesis
    unfolding cached_or_new_miss [OF None]
    by (auto split: prod.splits sum.splits dest: client_cache)
qed

lemma accepted_textD:
  assumes "accepted_text req = Some t"
  obtains data where "req = Inr data" "truthy data" "text_field data = Inr t" "valid_text t"
  using assms
  by (auto simp: accepted_text_def valid_text_def split: sum.splits if_splits)

lemma humanize_accepted:
  assumes "accepted_text req = Some t"
  shows "humanize rt e req w =
     (case cached_or_new rt e (md5_hexdigest rt t) t w of
        (Inl err, w') \<Rightarrow> ((err_body e err, 500), w')
      | (Inr h, w') \<Rightarrow> ((ok_body e t h (dict_in (md5_hexdigest rt t) (response_cache w')), 200), w'))"
  using assms by (elim accepted_textD) (simp add: humanize_valid)

lemma humanize_not_accepted:
  assumes "accepted_text req = None" "humanize rt e req w = ((body, status), w')"
  shows "field body ''success'' = Some (PBool False) \<and> w' = w"
  using assms
  by (auto simp: accepted_text_def humanize_def humanize_try_def encode_def
      split: sum.splits if_splits)

lemma humanize_success:
  assumes "humanize rt e req w = ((body, status), w')" "field body ''success'' = Some (PBool True)"
  obtains t h where "accepted_text req = Some t"
    "cached_or_new rt e (md5_hexdigest rt t) t w = (Inr h, w')"
    "body = ok_body e t h True" "status = 200" "map_of (response_cache w') (md5_hexdigest rt t) = Some h"
proof (cases "accepted_text req")
  case None
  from humanize_not_accepted [OF None assms(1)] assms(2) show ?thesis by simp
next
  case (Some t)
  obtain r w1 where c: "cached_or_new rt e (md5_hexdigest rt t) t w = (r, w1)" by force
  show ?thesis
  proof (cases r)
    case (Inl err)
    with assms c show ?thesis unfolding humanize_accepted [OF Some] by (auto simp: err_body_def)
  next
    case (Inr h)
    from cached_or_new_ok [OF c [unfolded Inr]]
    have m: "map_of (response_cache w1) (md5_hexdigest rt t) = Some h" .
    then have "dict_in (md5_hexdigest rt t) (response_cache w1)" by (simp add: dict_in_map_of)
    with assms c Inr m that [OF Some, of h] show ?thesis
      unfolding humanize_accepted [OF Some] by simp
  qed
qed

lemma humanize_hit:
  assumes "accepted_text req = Some t" "map_of (response_cache w) (md5_hexdigest rt t) = Some h"
  shows "humanize rt e req w =
     ((PDict [(py ''success'', PBool True),
              (py ''humanized_text'', PStr h),
              (py ''processing_time'', PFloat (elapsed e)),
              (py ''original_length'', PInt (int (length t))),
              (py ''humanized_length'', PInt (int (length h))),
              (py ''cached'', PBool True)], 200), w)"
  unfolding humanize_accepted [OF assms(1)] cached_or_new_hit [OF assms(2)]
  using assms(2) by (simp add: ok_body_def dict_in_map_of)

lemma client_raises:
  assumes "getenv_key e = Some key" "key \<noteq> []" "create e t = Inl err"
  shows "humanize_text_with_deepseek rt e t w = (Inl err, w\<lparr>create_calls := Suc (create_calls w)\<rparr>)"
  using assms by (simp add: humanize_text_with_deepseek_def get_deepseek_client_def)

lemma text_of_dict:
  "map_of kvs (py ''text'') = Some (PStr t) \<Longrightarrow> text_field (PDict kvs) = Inr (strip t) \<and> truthy (PDict kvs)"
  by (auto simp: text_field_def)

lemma humanize_by_text:
  assumes "truthy d1" "truthy d2" "text_field d1 = text_field d2"
  shows "humanize rt e (Inr d1) w = humanize rt e (Inr d2) w"
  using assms by (simp add: humanize_def humanize_try_def)

lemma falsy_response:
  "\<not> truthy data \<Longrightarrow> humanize rt e (Inr data) w =
     ((PDict [(py ''success'', PBool False), (py ''error'', PStr (py ''No JSON data provided''))], 400), w)"
  by (simp add: humanize_def humanize_try_def)

subsection \<open>requests in sequence\<close>

lemma humanize_rejected:
  assumes "accepted_text req = None"
  shows "snd (fst (humanize rt e req w)) \<noteq> 200 \<and> snd (humanize rt e req w) = w"
  using assms
  by (auto simp: accepted_text_def humanize_def humanize_try_def encode_def
      split: sum.splits if_splits)

lemma humanize_length:
  assumes "length (response_cache w) \<le> 100"
  shows "length (response_cache (snd (humanize rt e req w))) \<le> 100"
proof (cases "accepted_text req")
  case None
  from humanize_rejected [OF None] assms show ?thesis by simp
next
  case (Some t)
  obtain r w1 where c: "cached_or_new rt e (md5_hexdigest rt t) t w = (r, w1)" by force
  from cached_or_new_length [OF assms c] c show ?thesis
    unfolding humanize_accepted [OF Some] by (cases r) simp_all
qed

lemma serve_Cons_snd:
  "snd (serve rt ((e, req) # rs) w) = snd (serve rt rs (snd (humanize rt e req w)))"
  by (simp split: prod.splits)

lemma serve_length:
  "length (response_cache w) \<le> 100 \<Longrightarrow> length (response_cache (snd (serve rt rs w))) \<le> 100"
proof (induction rs arbitrary: w)
  case Nil
  then show ?case by simp
next
  case (Cons r rs)
  obtain e req where r: "r = (e, req)" by (cases r)
  from Cons.IH [OF humanize_length [OF Cons.prems, of rt e req]] show ?case
    unfolding r serve_Cons_snd .
qed

lemma serve_snoc:
  "serve rt (rs @ [(e, req)]) w =
     (fst (serve rt rs w) @ [fst (humanize rt e req (snd (serve rt rs w)))],
      snd (humanize rt e req (snd (serve rt rs w))))"
  by (induction rs arbitrary: w) (auto split: prod.splits)

lemma keys_evict:
  assumes "distinct (map fst c)"
  shows "map fst (evict c) = (if length c > 100 then tl (map fst c) else map fst c)"
proof (cases c)
  case Nil
  then show ?thesis by (simp add: evict_def)
next
  case (Cons kv rest)
  obtain k0 v0 where kv: "kv = (k0, v0)" by (cases kv)
  have "filter (\<lambda>(k', v'). k' \<noteq> k0) rest = rest"
    using assms Cons kv by (force simp: filter_id_conv)
  with Cons kv show ?thesis by (simp add: evict_def)
qed

lemma humanize_new_key:
  assumes ok: "snd (fst (humanize rt e req w)) = 200"
    and fp: "fingerprint rt req = Some k"
    and new: "k \<notin> set (map fst (response_cache w))"
    and dist: "distinct (map fst (response_cache w))"
  shows "map fst (response_cache (snd (humanize rt e req w)))
       = (if length (response_cache w) \<ge> 100 then tl (map fst (response_cache w) @ [k])
          else map fst (response_cache w) @ [k])"
proof -
  from fp obtain t where a: "accepted_text req = Some t" and k: "k = md5_hexdigest rt t"
    by (auto simp: fingerprint_def)
  have n: "map_of (response_cache w) (md5_hexdigest rt t) = None"
    using new k by (simp add: map_of_eq_None_iff)
  obtain r w1 where c: "humanize_text_with_deepseek rt e t w = (r, w1)" by force
  show ?thesis
  proof (cases r)
    case (Inl err)
    with ok c show ?thesis
      unfolding humanize_accepted [OF a] cached_or_new_miss [OF n] by simp
  next
    case (Inr h)
    have d: "distinct (map fst (response_cache w @ [(k, h)]))" using dist new by simp
    show ?thesis
      unfolding humanize_accepted [OF a] cached_or_new_miss [OF n] c Inr
      using keys_evict [OF d] k by simp
  qed
qed

lemma fifo_keys:
  assumes "list_all (\<lambda>r. snd r = 200) (fst (serve rt rs initial_world))"
    and "distinct (map (\<lambda>r. fingerprint rt (snd r)) rs)"
  shows "map (Some \<circ> fst) (response_cache (snd (serve rt rs initial_world)))
       = drop (length rs - 100) (map (\<lambda>r. fingerprint rt (snd r)) rs)"
  using assms
proof (induction rs rule: rev_induct)
  case Nil
  then show ?case by (simp add: initial_world_def)
next
  case (snoc r rs)
  obtain e req where r: "r = (e, req)" by (cases r)
  let ?w = "snd (serve rt rs initial_world)"
  let ?fps = "map (\<lambda>r. fingerprint rt (snd r)) rs"
  from snoc.prems(1) have oks: "list_all (\<lambda>r. snd r = 200) (fst (serve rt rs initial_world))"
    and ok: "snd (fst (humanize rt e req ?w)) = 200"
    by (simp_all add: r serve_snoc)
  from snoc.prems(2) have dist: "distinct ?fps" and new: "fingerprint rt req \<notin> set ?fps"
    by (simp_all add: r)
  have IH: "map (Some \<circ> fst) (response_cache ?w) = drop (length rs - 100) ?fps"
    using snoc.IH [OF oks dist] .
  from ok obtain k where fp: "fingerprint rt req = Some k"
    using humanize_rejected [of req rt e ?w] by (cases "accepted_text req") (auto simp: fingerprint_def)
  have keys: "map Some (map fst (response_cache ?w)) = drop (length rs - 100) ?fps"
    using IH by simp
  have newk: "k \<notin> set (map fst (response_cache ?w))"
  proof
    assume "k \<in> set (map fst (response_cache ?w))"
    then have "Some k \<in> set (map Some (map fst (response_cache ?w)))" by force
    then have "Some k \<in> set ?fps" unfolding keys by (rule in_set_dropD)
    with new fp show False by simp
  qed
  have "distinct (map Some (map fst (response_cache ?w)))" unfolding keys using dist by simp
  then have distk: "distinct (map fst (response_cache ?w))"
    using distinct_map [of Some "map fst (response_cache ?w)"] by blast
  have len: "length (response_cache ?w) = length rs - (length rs - 100)"
  proof -
    have "length (map Some (map fst (response_cache ?w))) = length (drop (length rs - 100) ?fps)"
      using keys by simp
    then show ?thesis by simp
  qed
  have step: "map fst (response_cache (snd (humanize rt e req ?w)))
       = (if length (response_cache ?w) \<ge> 100 then tl (map fst (response_cache ?w) @ [k])
          else map fst (response_cache ?w) @ [k])"
    by (rule humanize_new_key [OF ok fp newk distk])
  define K where "K = map fst (response_cache ?w)"
  define K' where "K' = map fst (response_cache (snd (humanize rt e req ?w)))"
  have keysK: "map Some K = drop (length rs - 100) ?fps" using keys by (simp only: K_def)
  have lenK: "length K = length rs - (length rs - 100)" using len by (simp add: K_def)
  have stepK: "K' = (if length K \<ge> 100 then tl (K @ [k]) else K @ [k])"
    using step by (simp add: K_def K'_def)
  have goal: "map Some K' = drop (length (rs @ [r]) - 100) (?fps @ [Some k])"
  proof (cases "length rs \<ge> 100")
    case True
    then have l: "length K = 100" using lenK by simp
    then have "map Some K' = tl (map Some K @ [Some k])" using stepK by (simp add: map_tl)
    also have "\<dots> = tl (drop (length rs - 100) ?fps @ [Some k])" by (simp only: keysK)
    also have "\<dots> = drop (Suc (length rs - 100)) (?fps @ [Some k])"
      using True by (simp add: drop_Suc tl_drop)
    finally have "map Some K' = drop (Suc (length rs - 100)) (?fps @ [Some k])" .
    moreover have "Suc (length rs - 100) = length (rs @ [r]) - 100" using True by simp
    ultimately show ?thesis by (simp only:)
  next
    case False
    then have l: "length K < 100" using lenK by simp
    then have "map Some K' = map Some K @ [Some k]" using stepK by simp
    also have "\<dots> = ?fps @ [Some k]" using keysK False by simp
    finally show ?thesis using False by simp
  qed
  have "map (Some \<circ> fst) (response_cache (snd (serve rt (rs @ [r]) initial_world))) = map Some K'"
    by (simp add: K'_def r serve_snoc)
  also note goal
  finally show ?case using fp by (simp add: r comp_def)
qed

lemmas run_defs = humanize_def humanize_try_def cached_or_new_def humanize_text_with_deepseek_def
  get_deepseek_client_def text_field_def encode_def is_surrogate_def strip_def py_isspace_def
  dict_in_def dict_getitem_def dict_setitem_def dict_first_def dict_delitem_def
  post_process_def pat_dash_def pat_meanwhile_def pat_flashpoint_def pat_which_def
  word_boundary_def is_word_def ascii_word_def test_runtime_def echo_env_def failing_env_def
  echo_create_def failing_create_def no_alnum_def text_request_def initial_world_def

lemma standalone_search:
  assumes Q: "\<And>prev s. match_here ua Q prev s = (if hits ua lead alts prev s then Some k else None)"
    and w: "w \<in> set alts"
    and s: "s = pre @ w @ post" "\<not> lead \<or> \<not> word_at ua (last_char None pre)"
      "\<not> word_at ua (first_char post)"
  shows "re_search ua Q None s"
proof -
  have "hits ua lead alts (last_char None pre) (w @ post)"
    using w s(2,3) by (auto simp: hits_def)
  then have "match_here ua Q (last_char None pre) (w @ post) \<noteq> None" by (simp add: Q)
  then show ?thesis unfolding s(1) by (rule re_search_at)
qed

lemma post_process_no_dash:
  assumes "c \<in> set (post_process ua s)"
  shows "c \<noteq> 8212 \<and> c \<noteq> 8211"
proof -
  let ?t1 = "re_sub ua pat_dash (py ''-'') None s"
  let ?t2 = "re_sub ua pat_meanwhile repl_meanwhile None ?t1"
  let ?t3 = "re_sub ua pat_flashpoint repl_flashpoint None ?t2"
  let ?t4 = "re_sub ua pat_which repl_which None ?t3"
  have 4: "c \<in> set ?t4" using assms by (simp add: post_process_def)
  show ?thesis
  proof (cases "c \<in> set ?t1")
    case True
    then show ?thesis by (rule dash_removed)
  next
    case False
    have "c \<in> set repl_which \<union> set ?t3" using 4 set_re_sub by blast
    moreover have "set ?t3 \<subseteq> set repl_flashpoint \<union> set ?t2" by (rule set_re_sub)
    moreover have "set ?t2 \<subseteq> set repl_meanwhile \<union> set ?t1" by (rule set_re_sub)
    ultimately have "c \<in> set repl_which \<union> set repl_flashpoint \<union> set repl_meanwhile"
      using False by blast
    then show ?thesis by auto
  qed
qed

lemma post_process_no_match:
  "\<not> re_search ua pat_meanwhile None (post_process ua s)"
  "\<not> re_search ua pat_flashpoint None (post_process ua s)"
  "\<not> re_search ua pat_which None (post_process ua s)"
proof -
  let ?t1 = "re_sub ua pat_dash (py ''-'') None s"
  let ?t2 = "re_sub ua pat_meanwhile repl_meanwhile None ?t1"
  let ?t3 = "re_sub ua pat_flashpoint repl_flashpoint None ?t2"
  have p: "post_process ua s = re_sub ua pat_which repl_which None ?t3"
    by (simp add: post_process_def)
  have m2: "\<not> re_search ua pat_meanwhile None ?t2" by (rule meanwhile_established) simp
  have m3: "\<not> re_search ua pat_meanwhile None ?t3" by (rule meanwhile_kept_flashpoint [OF m2]) simp
  have f3: "\<not> re_search ua pat_flashpoint None ?t3" by (rule flashpoint_established) simp
  show "\<not> re_search ua pat_meanwhile None (post_process ua s)"
    unfolding p by (rule meanwhile_kept_which [OF m3]) simp
  show "\<not> re_search ua pat_flashpoint None (post_process ua s)"
    unfolding p by (rule flashpoint_kept_which [OF f3]) simp
  show "\<not> re_search ua pat_which None (post_process ua s)"
    unfolding p by (rule which_established) simp
qed

lemma shout: "post_process no_alnum (py ''MEANWHILE'') = py ''MEANWHILE''"
  by (simp add: run_defs)

lemma its: "post_process no_alnum (py ''which makes its'') = py ''which makes its''"
  by (simp add: run_defs)

lemma echo_hello:
  "humanize test_runtime echo_env (text_request (py ''Hello'')) initial_world =
     ((ok_body echo_env (py ''Hello'') (py ''Hello'') True, 200),
      \<lparr>response_cache = [(py ''Hello'', py ''Hello'')], create_calls = Suc 0\<rparr>)"
  by (simp add: run_defs ok_body_def)

lemma accepted_hello: "accepted_text (text_request (py ''Hello'')) = Some (py ''Hello'')"
  by (simp add: accepted_text_def run_defs)

lemma accepted_padded: "accepted_text (text_request (py '' Hello '')) = Some (py ''Hello'')"
  by (simp add: accepted_text_def run_defs)

lemma whitespace_text_rejected:
  assumes "map_of kvs (py ''text'') = Some (PStr t)" "list_all py_isspace t"
  shows "humanize rt e (Inr (PDict kvs)) w =
          ((PDict [(py ''success'', PBool False), (py ''error'', PStr (py ''No text provided''))], 400), w)"
proof -
  have "text_field (PDict kvs) = Inr []" "truthy (PDict kvs)"
    using text_of_dict [OF assms(1)] strip_all_space [OF assms(2)] by auto
  then show ?thesis by (simp add: humanize_def humanize_try_def)
qed

lemma echo_ok:
  assumes "accepted_text req = Some t"
  shows "snd (fst (humanize rt echo_env req w)) = 200"
proof (cases "map_of (response_cache w) (md5_hexdigest rt t)")
  case None
  show ?thesis
    unfolding humanize_accepted [OF assms] cached_or_new_miss [OF None]
    by (simp add: humanize_text_with_deepseek_def get_deepseek_client_def echo_env_def echo_create_def)
next
  case (Some h)
  show ?thesis unfolding humanize_accepted [OF assms] cached_or_new_hit [OF Some] by simp
qed

lemma serve_Cons_fst:
  "fst (serve rt ((e, req) # rs) w)
     = fst (humanize rt e req w) # fst (serve rt rs (snd (humanize rt e req w)))"
  by (simp split: prod.splits)

lemma echo_serves_all:
  "list_all (\<lambda>r. fst r = echo_env \<and> accepted_text (snd r) \<noteq> None) rs
     \<Longrightarrow> list_all (\<lambda>r. snd r = 200) (fst (serve rt rs w))"
proof (induction rs arbitrary: w)
  case Nil
  then show ?case by simp
next
  case (Cons r rs)
  obtain e req where r: "r = (e, req)" by (cases r)
  from Cons.prems r obtain t where e: "e = echo_env" and a: "accepted_text req = Some t" by auto
  from Cons.prems have "list_all (\<lambda>r. fst r = echo_env \<and> accepted_text (snd r) \<noteq> None) rs" by simp
  from Cons.IH [OF this] echo_ok [OF a, of rt w] show ?case
    unfolding r e serve_Cons_fst by simp
qed

lemma accepted_small:
  "i < 101 \<Longrightarrow> accepted_text (text_request [97, i, 97]) = Some [97, i, 97]"
  by (simp add: accepted_text_def text_request_def text_field_def strip_def py_isspace_def
      is_surrogate_def)

lemma many_accepted:
  "list_all (\<lambda>r. fst r = echo_env \<and> accepted_text (snd r) \<noteq> None) many_requests"
  by (simp add: many_requests_def list_all_iff accepted_small del: upt.simps)

lemma many_fingerprints:
  "map (\<lambda>r. fingerprint test_runtime (snd r)) many_requests = map (\<lambda>i. Some [97, i, 97]) [0..<101]"
  by (simp add: many_requests_def fingerprint_def accepted_small test_runtime_def del: upt.simps)

lemma many_distinct: "distinct (map (\<lambda>r. fingerprint test_runtime (snd r)) many_requests)"
  unfolding many_fingerprints by (simp add: distinct_map inj_on_def del: upt.simps)

lemma strip_letters: "strip (replicate 10001 97) = replicate 10001 97"
proof (rule strip_clean)
  show "replicate 10001 (97::nat) \<noteq> []" by (simp)
  show "\<not> py_isspace (hd (replicate 10001 97))"
    by (simp add: hd_replicate py_isspace_def)
  show "\<not> py_isspace (last (replicate 10001 97))"
    by (simp add: last_replicate py_isspace_def)
qed



lemma strip_unpadded:
  assumes "core = [] \<or> (\<not> py_isspace (hd core) \<and> \<not> py_isspace (last core))"
  shows "strip core = core"
proof (cases "core = []")
  case True
  then show ?thesis by (simp add: strip_def)
next
  case False
  with assms show ?thesis by (simp add: strip_clean)
qed

lemma padding_exists:
  "\<exists>a core b. t = a @ core @ b \<and> list_all py_isspace a \<and> list_all py_isspace b
      \<and> (core = [] \<or> (\<not> py_isspace (hd core) \<and> \<not> py_isspace (last core)))"
proof -
  let ?a = "takeWhile py_isspace t"
  let ?r = "dropWhile py_isspace t"
  let ?b = "rev (takeWhile py_isspace (rev ?r))"
  let ?c = "rev (dropWhile py_isspace (rev ?r))"
  have 1: "t = ?a @ ?c @ ?b"
  proof -
    have "rev ?r = takeWhile py_isspace (rev ?r) @ dropWhile py_isspace (rev ?r)" by simp
    then have "rev (rev ?r) = rev (takeWhile py_isspace (rev ?r) @ dropWhile py_isspace (rev ?r))"
      by (rule arg_cong)
    then have "?r = ?c @ ?b" by (simp only: rev_rev_ident rev_append)
    then have "?a @ ?r = ?a @ ?c @ ?b" by simp
    then show ?thesis by simp
  qed
  have 2: "list_all py_isspace ?a" by (simp add: list_all_iff) (meson set_takeWhileD)
  have 3: "list_all py_isspace ?b" by (simp add: list_all_iff) (meson set_takeWhileD)
  have 4: "?c = [] \<or> (\<not> py_isspace (hd ?c) \<and> \<not> py_isspace (last ?c))"
  proof (cases "?c = []")
    case True
    then show ?thesis by simp
  next
    case False
    then have ne: "dropWhile py_isspace (rev ?r) \<noteq> []" by simp
    then have l: "\<not> py_isspace (hd (dropWhile py_isspace (rev ?r)))" by (rule hd_dropWhile)
    have last: "last ?c = hd (dropWhile py_isspace (rev ?r))" by (simp add: last_rev)
    have rne: "?r \<noteq> []"
    proof
      assume a: "?r = []"
      show False using ne unfolding a by simp
    qed
    then have h: "\<not> py_isspace (hd ?r)" by (rule hd_dropWhile)
    have "?r = ?c @ ?b"
    proof -
      have "rev ?r = takeWhile py_isspace (rev ?r) @ dropWhile py_isspace (rev ?r)" by simp
      then have "rev (rev ?r) = rev (takeWhile py_isspace (rev ?r) @ dropWhile py_isspace (rev ?r))"
        by (rule arg_cong)
      then show ?thesis by (simp only: rev_rev_ident rev_append)
    qed
    then have "hd ?r = hd ?c" using False by (metis hd_append2)
    with h l last show ?thesis by simp
  qed
  from 1 2 3 4 show ?thesis by blast
qed

section \<open>The claims\<close>

text \<open>
  C1. Requests are served one after the other, from the empty cache of a new process.
  After any sequence of requests the cache holds at most 100 entries. When 101 requests
  are all answered with status 200 and their fingerprints are pairwise distinct, the cache
  holds exactly 100 entries, the fingerprint of the first request is not among its keys,
  and the keys are the fingerprints of the other 100 requests in the order of insertion.
\<close>

theorem cache_bounded_fifo:
  "length (response_cache (snd (serve rt qs initial_world))) \<le> 100
   \<and> (length rs = 101 \<and> list_all (\<lambda>r. snd r = 200) (fst (serve rt rs initial_world))
        \<and> distinct (map (\<lambda>r. fingerprint rt (snd r)) rs)
      \<longrightarrow> length (response_cache (snd (serve rt rs initial_world))) = 100
        \<and> fingerprint rt (snd (hd rs))
            \<notin> set (map (Some \<circ> fst) (response_cache (snd (serve rt rs initial_world))))
        \<and> map (Some \<circ> fst) (response_cache (snd (serve rt rs initial_world)))
            = tl (map (\<lambda>r. fingerprint rt (snd r)) rs))"
proof (intro conjI impI)
  show "length (response_cache (snd (serve rt qs initial_world))) \<le> 100"
    by (rule serve_length) (simp add: initial_world_def)
next
  assume a: "length rs = 101 \<and> list_all (\<lambda>r. snd r = 200) (fst (serve rt rs initial_world))
        \<and> distinct (map (\<lambda>r. fingerprint rt (snd r)) rs)"
  let ?fps = "map (\<lambda>r. fingerprint rt (snd r)) rs"
  let ?keys = "map (Some \<circ> fst) (response_cache (snd (serve rt rs initial_world)))"
  from a have len: "length rs = 101" and dist: "distinct ?fps" by auto
  from a have "?keys = drop (length rs - 100) ?fps" using fifo_keys by blast
  then have k: "?keys = tl ?fps" using len by (simp add: drop_Suc)
  then show "?keys = tl ?fps" .
  have "length ?keys = 100" unfolding k using len by simp
  then show "length (response_cache (snd (serve rt rs initial_world))) = 100" by simp
  from len obtain r rest where rs: "rs = r # rest" by (cases rs) auto
  show "fingerprint rt (snd (hd rs)) \<notin> set ?keys"
    unfolding k using dist by (simp add: rs)
qed

text \<open>The 101 requests \<open>many_requests\<close>, with the echoing provider.\<close>

theorem cache_bounded_fifo_witness:
  "length many_requests = 101
   \<and> list_all (\<lambda>r. snd r = 200) (fst (serve test_runtime many_requests initial_world))
   \<and> distinct (map (\<lambda>r. fingerprint test_runtime (snd r)) many_requests)
   \<and> length (response_cache (snd (serve test_runtime many_requests initial_world))) = 100
   \<and> fingerprint test_runtime (snd (hd many_requests))
        \<notin> set (map (Some \<circ> fst) (response_cache (snd (serve test_runtime many_requests initial_world))))"
proof -
  have l: "length many_requests = 101" by (simp add: many_requests_def)
  have s: "list_all (\<lambda>r. snd r = 200) (fst (serve test_runtime many_requests initial_world))"
    by (rule echo_serves_all [OF many_accepted])
  from cache_bounded_fifo [of test_runtime many_requests many_requests] l s many_distinct
  show ?thesis by blast
qed

text \<open>
  C2, as the code has it. The post-processor is a total function, and for every input its
  output has no em-dash (U+2014) and no en-dash (U+2013); none of the words "Meanwhile",
  "meanwhile", "Flashpoint", "flashpoint" standing between non-word characters (or the
  ends of the text); and no "which makes it" that is followed by a non-word character or
  the end of the text. Other spellings of the two words (such as "MEANWHILE") and
  "which makes it" followed by a word character (as in "which makes its") are left as
  they are.
\<close>

theorem post_process_enforces:
  "8212 \<notin> set (post_process ua s) \<and> 8211 \<notin> set (post_process ua s)
   \<and> \<not> standalone ua (py ''Meanwhile'') (post_process ua s)
   \<and> \<not> standalone ua (py ''meanwhile'') (post_process ua s)
   \<and> \<not> standalone ua (py ''Flashpoint'') (post_process ua s)
   \<and> \<not> standalone ua (py ''flashpoint'') (post_process ua s)
   \<and> \<not> ends_word ua (py ''which makes it'') (post_process ua s)"
proof -
  have d: "8212 \<notin> set (post_process ua s)" "8211 \<notin> set (post_process ua s)"
    using post_process_no_dash [of _ ua s] by blast+
  have m: "\<not> standalone ua w (post_process ua s)"
    if "w \<in> set [py ''Meanwhile'', py ''meanwhile'']" for w
  proof
    assume "standalone ua w (post_process ua s)"
    then obtain pre post where "post_process ua s = pre @ w @ post"
      "\<not> word_at ua (last_char None pre)" "\<not> word_at ua (first_char post)"
      by (auto simp: standalone_def)
    then have "re_search ua pat_meanwhile None (post_process ua s)"
      using standalone_search [OF match_meanwhile that] by blast
    with post_process_no_match(1) show False by blast
  qed
  have f: "\<not> standalone ua w (post_process ua s)"
    if "w \<in> set [py ''Flashpoint'', py ''flashpoint'']" for w
  proof
    assume "standalone ua w (post_process ua s)"
    then obtain pre post where "post_process ua s = pre @ w @ post"
      "\<not> word_at ua (last_char None pre)" "\<not> word_at ua (first_char post)"
      by (auto simp: standalone_def)
    then have "re_search ua pat_flashpoint None (post_process ua s)"
      using standalone_search [OF match_flashpoint that] by blast
    with post_process_no_match(2) show False by blast
  qed
  have w: "\<not> ends_word ua (py ''which makes it'') (post_process ua s)"
  proof
    assume "ends_word ua (py ''which makes it'') (post_process ua s)"
    then obtain pre post where "post_process ua s = pre @ py ''which makes it'' @ post"
      "\<not> word_at ua (first_char post)"
      by (auto simp: ends_word_def)
    then have "re_search ua pat_which None (post_process ua s)"
      using standalone_search [OF match_which, of "py ''which makes it''"] by simp
    with post_process_no_match(3) show False by blast
  qed
  from d m f w show ?thesis by simp
qed

text \<open>
  C2 as stated fails: "MEANWHILE" is the word "Meanwhile" in another letter case and is
  still in the output; the output for "which makes its" contains "which makes it".
\<close>

theorem post_process_counterexample:
  "standalone_ci no_alnum (py ''Meanwhile'') (post_process no_alnum (py ''MEANWHILE''))
   \<and> contains (py ''which makes it'') (post_process no_alnum (py ''which makes its''))"
proof
  have "map lower (py ''MEANWHILE'') = [] @ map lower (py ''Meanwhile'') @ []"
    by (simp add: lower_def)
  then show "standalone_ci no_alnum (py ''Meanwhile'') (post_process no_alnum (py ''MEANWHILE''))"
    unfolding shout standalone_ci_def standalone_def
    by (intro exI [of _ "[]"] conjI) simp_all
  have "py ''which makes its'' = [] @ py ''which makes it'' @ py ''s''" by simp
  then show "contains (py ''which makes it'') (post_process no_alnum (py ''which makes its''))"
    unfolding its contains_def by blast
qed

text \<open>
  C3. When a request has been answered with success, the same request sent again to the
  state the first one left is answered with status 200 and the same rewritten text,
  whatever the provider would do now; the state, and with it the number of calls of the
  provider, is as the first request left it.
\<close>

theorem repeated_request_from_cache:
  assumes "humanize rt e1 req w = ((body1, status1), w1)" "field body1 ''success'' = Some (PBool True)"
  shows "snd (humanize rt e2 req w1) = w1
       \<and> create_calls (snd (humanize rt e2 req w1)) = create_calls w1
       \<and> snd (fst (humanize rt e2 req w1)) = 200
       \<and> field (fst (fst (humanize rt e2 req w1))) ''humanized_text'' = field body1 ''humanized_text''
       \<and> field body1 ''humanized_text'' \<noteq> None"
proof -
  from assms obtain t h where a: "accepted_text req = Some t" and b: "body1 = ok_body e1 t h True"
    and m: "map_of (response_cache w1) (md5_hexdigest rt t) = Some h"
    by (rule humanize_success)
  show ?thesis unfolding humanize_hit [OF a m] b by (simp add: ok_body_def)
qed

text \<open>The second request is served although the provider would now raise.\<close>

theorem repeated_request_from_cache_witness:
  "humanize test_runtime echo_env (text_request (py ''Hello'')) initial_world =
     ((ok_body echo_env (py ''Hello'') (py ''Hello'') True, 200),
      \<lparr>response_cache = [(py ''Hello'', py ''Hello'')], create_calls = Suc 0\<rparr>)
   \<and> field (ok_body echo_env (py ''Hello'') (py ''Hello'') True) ''success'' = Some (PBool True)
   \<and> create_calls (snd (humanize test_runtime failing_env (text_request (py ''Hello''))
        \<lparr>response_cache = [(py ''Hello'', py ''Hello'')], create_calls = Suc 0\<rparr>)) = Suc 0
   \<and> snd (fst (humanize test_runtime failing_env (text_request (py ''Hello''))
        \<lparr>response_cache = [(py ''Hello'', py ''Hello'')], create_calls = Suc 0\<rparr>)) = 200
   \<and> field (fst (fst (humanize test_runtime failing_env (text_request (py ''Hello''))
        \<lparr>response_cache = [(py ''Hello'', py ''Hello'')], create_calls = Suc 0\<rparr>))) ''humanized_text''
      = Some (PStr (py ''Hello''))"
proof -
  have s: "field (ok_body echo_env (py ''Hello'') (py ''Hello'') True) ''success'' = Some (PBool True)"
    by (simp add: ok_body_def)
  have t: "field (ok_body echo_env (py ''Hello'') (py ''Hello'') True) ''humanized_text''
      = Some (PStr (py ''Hello''))"
    by (simp add: ok_body_def)
  from repeated_request_from_cache [OF echo_hello s, of failing_env] echo_hello s t
  show ?thesis by simp
qed

text \<open>
  C4, as the code has it. When the text of a request passes validation, its fingerprint is
  not in the cache, the API key is set and the call of the provider raises \<open>err\<close>, the
  response has \<open>success\<close> false, status 500 and as \<open>error\<close> the text \<open>str(err)\<close>; the cache
  is as before (one call of the provider more is counted), so nothing is stored for the
  fingerprint.
\<close>

theorem provider_failure:
  assumes "accepted_text req = Some t" "\<not> dict_in (md5_hexdigest rt t) (response_cache w)"
    and "getenv_key e = Some key" "key \<noteq> []" "create e t = Inl err"
  shows "humanize rt e req w =
     ((PDict [(py ''success'', PBool False),
              (py ''error'', PStr (str_exc err)),
              (py ''processing_time'', PFloat (elapsed e))], 500),
      w\<lparr>create_calls := Suc (create_calls w)\<rparr>)"
proof -
  have n: "map_of (response_cache w) (md5_hexdigest rt t) = None"
    using assms(2) by (simp add: dict_in_map_of)
  show ?thesis
    unfolding humanize_accepted [OF assms(1)] cached_or_new_miss [OF n] client_raises [OF assms(3-5)]
    by (simp add: err_body_def)
qed

theorem provider_failure_witness:
  "accepted_text (text_request (py ''Hello'')) = Some (py ''Hello'')
   \<and> \<not> dict_in (md5_hexdigest test_runtime (py ''Hello'')) (response_cache initial_world)
   \<and> getenv_key failing_env = Some (py ''sk-test'') \<and> py ''sk-test'' \<noteq> []
   \<and> create failing_env (py ''Hello'') = Inl (Raised [])
   \<and> humanize test_runtime failing_env (text_request (py ''Hello'')) initial_world =
     ((PDict [(py ''success'', PBool False),
              (py ''error'', PStr (str_exc (Raised []))),
              (py ''processing_time'', PFloat (elapsed failing_env))], 500),
      initial_world\<lparr>create_calls := Suc (create_calls initial_world)\<rparr>)"
proof -
  have a: "\<not> dict_in (md5_hexdigest test_runtime (py ''Hello'')) (response_cache initial_world)"
    by (simp add: initial_world_def dict_in_def)
  have b: "getenv_key failing_env = Some (py ''sk-test'')" by (simp add: failing_env_def)
  have c: "py ''sk-test'' \<noteq> []" by simp
  have d: "create failing_env (py ''Hello'') = Inl (Raised [])"
    by (simp add: failing_env_def failing_create_def)
  from provider_failure [OF accepted_hello a b c d] accepted_hello a b c d
  show ?thesis by blast
qed

text \<open>
  C4 as stated fails on the error field: the provider raises an exception whose text is
  empty, and the \<open>error\<close> field of the response is the empty string.
\<close>

theorem provider_failure_counterexample:
  "create failing_env (py ''Hello'') = Inl (Raised [])
   \<and> snd (fst (humanize test_runtime failing_env (text_request (py ''Hello'')) initial_world)) = 500
   \<and> field (fst (fst (humanize test_runtime failing_env (text_request (py ''Hello'')) initial_world)))
        ''error'' = Some (PStr [])"
  by (simp add: run_defs)

text \<open>
  C5, as the code has it. A request whose text field has more than 10,000 characters
  after \<open>strip()\<close> is answered with status 400 and the error "Text too long. Maximum
  10,000 characters allowed."; the state is as before, so the provider is not called.
\<close>

theorem too_long_rejected:
  assumes "map_of kvs (py ''text'') = Some (PStr t)" "length (strip t) > 10000"
  shows "humanize rt e (Inr (PDict kvs)) w =
     ((PDict [(py ''success'', PBool False),
              (py ''error'', PStr (py ''Text too long. Maximum 10,000 characters allowed.''))], 400), w)"
proof -
  from text_of_dict [OF assms(1)]
  have "text_field (PDict kvs) = Inr (strip t)" "truthy (PDict kvs)" by auto
  moreover from assms(2) have "strip t \<noteq> []" by auto
  ultimately show ?thesis using assms(2) by (simp add: humanize_def humanize_try_def)
qed

theorem too_long_rejected_witness:
  "map_of [(py ''text'', PStr (replicate 10001 97))] (py ''text'') = Some (PStr (replicate 10001 97))
   \<and> length (strip (replicate 10001 97)) > 10000
   \<and> humanize test_runtime echo_env (Inr (PDict [(py ''text'', PStr (replicate 10001 97))])) initial_world =
     ((PDict [(py ''success'', PBool False),
              (py ''error'', PStr (py ''Text too long. Maximum 10,000 characters allowed.''))], 400),
      initial_world)"
proof -
  have a: "map_of [(py ''text'', PStr (replicate 10001 97))] (py ''text'') = Some (PStr (replicate 10001 97))"
    by (simp)
  have b: "length (strip (replicate 10001 97)) > 10000"
    unfolding strip_letters by (simp)
  from too_long_rejected [OF a b] a b show ?thesis by blast
qed

text \<open>
  C5 as stated fails: a text field of 10,001 spaces is longer than 10,000 characters and
  is answered with "No text provided".
\<close>

theorem too_long_counterexample:
  "length (replicate 10001 (32::nat)) > 10000
   \<and> humanize test_runtime echo_env (Inr (PDict [(py ''text'', PStr (replicate 10001 32))])) initial_world =
     ((PDict [(py ''success'', PBool False), (py ''error'', PStr (py ''No text provided''))], 400),
      initial_world)"
proof
  show "length (replicate 10001 (32::nat)) > 10000" by (simp)
  have a: "map_of [(py ''text'', PStr (replicate 10001 32))] (py ''text'') = Some (PStr (replicate 10001 32))"
    by (simp)
  have b: "list_all py_isspace (replicate 10001 32)"
    by (simp add: list_all_iff py_isspace_def)
  show "humanize test_runtime echo_env (Inr (PDict [(py ''text'', PStr (replicate 10001 32))])) initial_world =
     ((PDict [(py ''success'', PBool False), (py ''error'', PStr (py ''No text provided''))], 400),
      initial_world)"
    by (rule whitespace_text_rejected [OF a b])
qed




text \<open>
  C7. Every response with \<open>success\<close> true has \<open>cached\<close> true, on a hit and on a miss: the
  flag is the membership of the key in the cache after the insertion and the eviction.
\<close>

theorem success_reports_cached:
  "humanize rt e req w = ((body, status), w') \<Longrightarrow> field body ''success'' = Some (PBool True)
     \<Longrightarrow> field body ''cached'' = Some (PBool True)"
  by (erule humanize_success) (simp_all add: ok_body_def)

text \<open>A miss on the empty cache reports \<open>cached\<close> true.\<close>

theorem success_reports_cached_witness:
  "humanize test_runtime echo_env (text_request (py ''Hello'')) initial_world =
     ((ok_body echo_env (py ''Hello'') (py ''Hello'') True, 200),
      \<lparr>response_cache = [(py ''Hello'', py ''Hello'')], create_calls = Suc 0\<rparr>)
   \<and> field (ok_body echo_env (py ''Hello'') (py ''Hello'') True) ''success'' = Some (PBool True)
   \<and> field (ok_body echo_env (py ''Hello'') (py ''Hello'') True) ''cached'' = Some (PBool True)"
proof -
  have s: "field (ok_body echo_env (py ''Hello'') (py ''Hello'') True) ''success'' = Some (PBool True)"
    by (simp add: ok_body_def)
  from success_reports_cached [OF echo_hello s] echo_hello s show ?thesis by simp
qed

text \<open>
  C8. When the text of a request passes validation and its fingerprint is in the cache,
  the response is the cached text with status 200 and the state after the request is the
  state before it: no entry is added, removed or moved.
\<close>

theorem cache_hit_leaves_cache:
  assumes "accepted_text req = Some t" "map_of (response_cache w) (md5_hexdigest rt t) = Some h"
  shows "humanize rt e req w =
     ((PDict [(py ''success'', PBool True),
              (py ''humanized_text'', PStr h),
              (py ''processing_time'', PFloat (elapsed e)),
              (py ''original_length'', PInt (int (length t))),
              (py ''humanized_length'', PInt (int (length h))),
              (py ''cached'', PBool True)], 200), w)"
  using assms by (rule humanize_hit)

theorem cache_hit_leaves_cache_witness:
  "accepted_text (text_request (py '' Hello '')) = Some (py ''Hello'')
   \<and> map_of (response_cache \<lparr>response_cache = [(py ''Hello'', py ''Hi'')], create_calls = 1\<rparr>)
        (md5_hexdigest test_runtime (py ''Hello'')) = Some (py ''Hi'')
   \<and> humanize test_runtime failing_env (text_request (py '' Hello ''))
        \<lparr>response_cache = [(py ''Hello'', py ''Hi'')], create_calls = 1\<rparr> =
     ((PDict [(py ''success'', PBool True),
              (py ''humanized_text'', PStr (py ''Hi'')),
              (py ''processing_time'', PFloat (elapsed failing_env)),
              (py ''original_length'', PInt 5),
              (py ''humanized_length'', PInt 2),
              (py ''cached'', PBool True)], 200),
      \<lparr>response_cache = [(py ''Hello'', py ''Hi'')], create_calls = 1\<rparr>)"
proof -
  have m: "map_of (response_cache \<lparr>response_cache = [(py ''Hello'', py ''Hi'')], create_calls = 1\<rparr>)
        (md5_hexdigest test_runtime (py ''Hello'')) = Some (py ''Hi'')"
    by (simp add: test_runtime_def)
  from cache_hit_leaves_cache [OF accepted_padded m, of failing_env] accepted_padded m
  show ?thesis by simp
qed

text \<open>
  C9. Two requests whose text fields are the same text \<open>core\<close> (one that neither begins
  nor ends with whitespace) between different leading and trailing whitespace get the same
  response and leave the same state, in every environment and from every state. For both,
  the text that is validated, fingerprinted and sent to the provider is \<open>core\<close>; the
  fingerprint of both is the digest of \<open>core\<close>; and a response with status 200 reports as
  \<open>original_length\<close> the length of \<open>core\<close>, not that of the text submitted. Every text is
  such a \<open>core\<close> between whitespace (\<open>padding_exists\<close>).
\<close>

theorem whitespace_padding_indistinguishable:
  assumes "list_all py_isspace a1" "list_all py_isspace b1"
    and "list_all py_isspace a2" "list_all py_isspace b2"
    and "core = [] \<or> (\<not> py_isspace (hd core) \<and> \<not> py_isspace (last core))"
    and "map_of kvs1 (py ''text'') = Some (PStr (a1 @ core @ b1))"
    and "map_of kvs2 (py ''text'') = Some (PStr (a2 @ core @ b2))"
  shows "humanize rt e (Inr (PDict kvs1)) w = humanize rt e (Inr (PDict kvs2)) w
       \<and> text_field (PDict kvs1) = Inr core \<and> text_field (PDict kvs2) = Inr core
       \<and> fingerprint rt (Inr (PDict kvs1)) = fingerprint rt (Inr (PDict kvs2))
       \<and> fingerprint rt (Inr (PDict kvs1))
            = (if core = [] \<or> length core > 10000 \<or> list_ex is_surrogate core then None
               else Some (md5_hexdigest rt core))
       \<and> (snd (fst (humanize rt e (Inr (PDict kvs1)) w)) = 200 \<longrightarrow>
            field (fst (fst (humanize rt e (Inr (PDict kvs1)) w))) ''original_length''
              = Some (PInt (int (length core))))"
proof -
  have sc: "strip core = core" using assms(5) by (rule strip_unpadded)
  have t1: "text_field (PDict kvs1) = Inr core" "truthy (PDict kvs1)"
    using text_of_dict [OF assms(6)] strip_padded [OF assms(1,2)] sc by auto
  have t2: "text_field (PDict kvs2) = Inr core" "truthy (PDict kvs2)"
    using text_of_dict [OF assms(7)] strip_padded [OF assms(3,4)] sc by auto
  have a: "humanize rt e (Inr (PDict kvs1)) w = humanize rt e (Inr (PDict kvs2)) w"
    by (rule humanize_by_text) (use t1 t2 in auto)
  have b: "fingerprint rt (Inr (PDict kvs1)) = fingerprint rt (Inr (PDict kvs2))"
    using t1 t2 by (simp add: fingerprint_def accepted_text_def)
  have b': "fingerprint rt (Inr (PDict kvs1))
            = (if core = [] \<or> length core > 10000 \<or> list_ex is_surrogate core then None
               else Some (md5_hexdigest rt core))"
    using t1 by (simp add: fingerprint_def accepted_text_def encode_def)
  have c: "field (fst (fst (humanize rt e (Inr (PDict kvs1)) w))) ''original_length''
              = Some (PInt (int (length core)))"
    if "snd (fst (humanize rt e (Inr (PDict kvs1)) w)) = 200"
    using that t1
    by (auto simp: humanize_def humanize_try_def Let_def split: sum.splits if_splits prod.splits)
  from a b b' c t1(1) t2(1) show ?thesis by blast
qed

text \<open>
  "  Hello" and "Hello" followed by a tab and a newline: the same response, the text
  "Hello", and \<open>original_length\<close> 5.
\<close>

theorem whitespace_padding_witness:
  "list_all py_isspace (py ''  '') \<and> list_all py_isspace [] \<and> list_all py_isspace [9, 10]
   \<and> \<not> py_isspace (hd (py ''Hello'')) \<and> \<not> py_isspace (last (py ''Hello''))
   \<and> map_of [(py ''text'', PStr (py ''  '' @ py ''Hello'' @ []))] (py ''text'')
        = Some (PStr (py ''  '' @ py ''Hello'' @ []))
   \<and> map_of [(py ''text'', PStr ([] @ py ''Hello'' @ [9, 10]))] (py ''text'')
        = Some (PStr ([] @ py ''Hello'' @ [9, 10]))
   \<and> humanize test_runtime echo_env (Inr (PDict [(py ''text'', PStr (py ''  '' @ py ''Hello'' @ []))])) initial_world
      = humanize test_runtime echo_env (Inr (PDict [(py ''text'', PStr ([] @ py ''Hello'' @ [9, 10]))])) initial_world
   \<and> text_field (PDict [(py ''text'', PStr (py ''  '' @ py ''Hello'' @ []))]) = Inr [72, 101, 108, 108, 111]
   \<and> fingerprint test_runtime (Inr (PDict [(py ''text'', PStr (py ''  '' @ py ''Hello'' @ []))]))
        = Some [72, 101, 108, 108, 111]
   \<and> snd (fst (humanize test_runtime echo_env
         (Inr (PDict [(py ''text'', PStr (py ''  '' @ py ''Hello'' @ []))])) initial_world)) = 200
   \<and> field (fst (fst (humanize test_runtime echo_env
         (Inr (PDict [(py ''text'', PStr (py ''  '' @ py ''Hello'' @ []))])) initial_world)))
       ''original_length'' = Some (PInt 5)"
proof -
  have s: "list_all py_isspace (py ''  '')" "list_all py_isspace []" "list_all py_isspace [9, 10]"
    by (simp_all add: py_isspace_def)
  have u: "\<not> py_isspace (hd (py ''Hello''))" "\<not> py_isspace (last (py ''Hello''))"
    by (simp_all add: py_isspace_def)
  then have u': "py ''Hello'' = [] \<or> (\<not> py_isspace (hd (py ''Hello'')) \<and> \<not> py_isspace (last (py ''Hello'')))"
    by blast
  have m1: "map_of [(py ''text'', PStr (py ''  '' @ py ''Hello'' @ []))] (py ''text'')
        = Some (PStr (py ''  '' @ py ''Hello'' @ []))" by simp
  have m2: "map_of [(py ''text'', PStr ([] @ py ''Hello'' @ [9, 10]))] (py ''text'')
        = Some (PStr ([] @ py ''Hello'' @ [9, 10]))" by simp
  have ok: "snd (fst (humanize test_runtime echo_env
         (Inr (PDict [(py ''text'', PStr (py ''  '' @ py ''Hello'' @ []))])) initial_world)) = 200"
    by (simp add: run_defs)
  note th = whitespace_padding_indistinguishable [OF s(1) s(2) s(2) s(3) u' m1 m2,
      of test_runtime echo_env initial_world]
  from th have e: "humanize test_runtime echo_env (Inr (PDict [(py ''text'', PStr (py ''  '' @ py ''Hello'' @ []))])) initial_world
      = humanize test_runtime echo_env (Inr (PDict [(py ''text'', PStr ([] @ py ''Hello'' @ [9, 10]))])) initial_world"
    by blast
  from th have tf: "text_field (PDict [(py ''text'', PStr (py ''  '' @ py ''Hello'' @ []))]) = Inr (py ''Hello'')"
    by blast
  from th have fp: "fingerprint test_runtime (Inr (PDict [(py ''text'', PStr (py ''  '' @ py ''Hello'' @ []))]))
       = (if py ''Hello'' = [] \<or> length (py ''Hello'') > 10000 \<or> list_ex is_surrogate (py ''Hello'') then None
               else Some (md5_hexdigest test_runtime (py ''Hello'')))"
    by blast
  from th ok have ol: "field (fst (fst (humanize test_runtime echo_env
         (Inr (PDict [(py ''text'', PStr (py ''  '' @ py ''Hello'' @ []))])) initial_world)))
       ''original_length'' = Some (PInt (int (length (py ''Hello''))))"
    by blast
  have tf': "text_field (PDict [(py ''text'', PStr (py ''  '' @ py ''Hello'' @ []))]) = Inr [72, 101, 108, 108, 111]"
    using tf by simp
  have fp': "fingerprint test_runtime (Inr (PDict [(py ''text'', PStr (py ''  '' @ py ''Hello'' @ []))]))
        = Some [72, 101, 108, 108, 111]"
    unfolding fp by (simp add: is_surrogate_def test_runtime_def)
  have ol': "field (fst (fst (humanize test_runtime echo_env
         (Inr (PDict [(py ''text'', PStr (py ''  '' @ py ''Hello'' @ []))])) initial_world)))
       ''original_length'' = Some (PInt 5)"
    unfolding ol by simp
  from s u m1 m2 e tf' fp' ok ol' show ?thesis by blast
qed

text \<open>
  C10. A body that parses to a falsy value (the empty object, the empty array, 0, false,
  null) is answered with status 400 and the error "No JSON data provided", and the state
  is as before: the handler tests \<open>not data\<close>.
\<close>

theorem falsy_json_rejected:
  "humanize rt e (Inr (PDict [])) w =
     ((PDict [(py ''success'', PBool False), (py ''error'', PStr (py ''No JSON data provided''))], 400), w)
   \<and> humanize rt e (Inr (PList [])) w =
     ((PDict [(py ''success'', PBool False), (py ''error'', PStr (py ''No JSON data provided''))], 400), w)
   \<and> humanize rt e (Inr (PInt 0)) w =
     ((PDict [(py ''success'', PBool False), (py ''error'', PStr (py ''No JSON data provided''))], 400), w)
   \<and> humanize rt e (Inr (PBool False)) w =
     ((PDict [(py ''success'', PBool False), (py ''error'', PStr (py ''No JSON data provided''))], 400), w)
   \<and> humanize rt e (Inr PNone) w =
     ((PDict [(py ''success'', PBool False), (py ''error'', PStr (py ''No JSON data provided''))], 400), w)"
  by (simp add: falsy_response)

end
